theory Spec2Isabelle
  imports Complex_Main
begin


unbundle bit_operations_syntax

section \<open>IPAM prefix allocator: sizing\<close>

text \<open>
  The repository ships the browser dashboard (\<^verbatim>\<open>dashboard.js\<close>, \<^verbatim>\<open>static/auth.js\<close>) and the
  README. The allocation engine behind the HTTP API is not among the sources; its parts
  are modelled from the specification and from the README's sizing table.
\<close>

datatype engine_error =
  HostCountOutOfRange | PrefixOutOfRange | PoolExhausted
  | VpcNotFound | AllocationNotFound | InvalidRelease

text \<open>Usable addresses of a block with prefix length \<open>p\<close>: \<open>2^(32 - p) - 5\<close> (policy reserve).\<close>

definition usable_ips :: "int \<Rightarrow> int" where
  "usable_ips p = 2 ^ nat (32 - p) - 5"

text \<open>
  Modelled from the spec: SizingResolver, host-count mode. The engine's source is missing;
  this is the seven-row table of section 4.1 (the README's "Subnet Sizing Logic"), read
  row by row, with \<open>HostCountOutOfRange\<close> outside 1..4091.
\<close>

definition resolve_hosts :: "int \<Rightarrow> engine_error + int" where
  "resolve_hosts h =
     (if h < 1 \<or> h > 4091 then Inl HostCountOutOfRange
      else if h \<le> 59 then Inr 26
      else if h \<le> 123 then Inr 25
      else if h \<le> 251 then Inr 24
      else if h \<le> 507 then Inr 23
      else if h \<le> 1019 then Inr 22
      else if h \<le> 2043 then Inr 21
      else Inr 20)"

text \<open>
  Modelled from the spec: the sentence above the table, word for word: "the smallest
  primary prefix length whose usable-IP count is at least the requested hosts", searched
  over the legal range 20..26 in ascending order.
\<close>

definition smallest_fitting_prefix :: "int \<Rightarrow> int option" where
  "smallest_fitting_prefix h = find (\<lambda>p. h \<le> usable_ips p) [20, 21, 22, 23, 24, 25, 26]"

text \<open>The upper bounds of the table's rows, paired with the row's prefix length.\<close>

definition sizing_rows :: "(int \<times> int) list" where
  "sizing_rows =
     [(59, 26), (123, 25), (251, 24), (507, 23), (1019, 22), (2043, 21), (4091, 20)]"

text \<open>
  Modelled from the spec: the paired CGNAT prefix, "primary prefix - 5, additionally
  clamped into [15, 21]".
\<close>

definition clamp :: "int \<Rightarrow> int \<Rightarrow> int \<Rightarrow> int" where
  "clamp lo hi x = max lo (min hi x)"

definition cgnat_prefix :: "int \<Rightarrow> int" where
  "cgnat_prefix p = clamp 15 21 (p - 5)"

text \<open>Modelled from the spec: SizingResolver, explicit-prefix mode.\<close>

definition resolve_prefix :: "int \<Rightarrow> engine_error + int" where
  "resolve_prefix p = (if 20 \<le> p \<and> p \<le> 26 then Inr p else Inl PrefixOutOfRange)"

datatype sizing_request = Hosts int | Prefix int

text \<open>Modelled from the spec: SizingResolver, producing (primary prefix, CGNAT prefix).\<close>

definition SizingResolver :: "sizing_request \<Rightarrow> engine_error + (int \<times> int)" where
  "SizingResolver r =
     (case (case r of Hosts h \<Rightarrow> resolve_hosts h | Prefix p \<Rightarrow> resolve_prefix p) of
        Inl e \<Rightarrow> Inl e
      | Inr p \<Rightarrow> Inr (p, cgnat_prefix p))"

section \<open>The allocation engine\<close>

text \<open>
  Modelled from the spec: AddressBlock (section 3), a base address and a prefix length.
  The engine's source is missing from the repository; every definition of this section
  follows sections 3 and 4 of the specification. A block of prefix length \<open>p\<close> spans
  \<open>2^(32 - p)\<close> addresses.
\<close>

datatype block = Block (base: nat) (plen: nat)

definition block_size :: "nat \<Rightarrow> nat" where
  "block_size p = 2 ^ (32 - p)"

text \<open>Modelled from the spec: "naturally aligned: base address is a multiple of the block's size".\<close>

definition aligned :: "block \<Rightarrow> bool" where
  "aligned x = (plen x \<le> 32 \<and> block_size (plen x) dvd base x)"

text \<open>Modelled from the spec: two blocks overlap when their address ranges intersect.\<close>

definition overlaps :: "block \<Rightarrow> block \<Rightarrow> bool" where
  "overlaps x y =
     (base x < base y + block_size (plen y) \<and> base y < base x + block_size (plen x))"

text \<open>
  Modelled from the spec: the buddy, "the other half of the aligned parent block,
  computable directly from its base address and prefix length via address XOR", and the
  parent the two buddies merge into, which starts at the lower of the two bases.
\<close>

definition buddy :: "block \<Rightarrow> block" where
  "buddy x = Block (base x XOR block_size (plen x)) (plen x)"

definition parent :: "block \<Rightarrow> block" where
  "parent x = Block (min (base x) (base (buddy x))) (plen x - 1)"

text \<open>
  Modelled from the spec: Pool (section 3): the pool's own block and the legal range of
  prefix lengths it hands out. Primary is 10.0.0.0/16, CGNAT is 100.64.0.0/10.
\<close>

record pool =
  span :: block
  shortest :: nat
  longest :: nat

definition Primary :: pool where
  "Primary = \<lparr>span = Block 167772160 16, shortest = 20, longest = 26\<rparr>"

definition CGNAT :: pool where
  "CGNAT = \<lparr>span = Block 1681915904 10, shortest = 15, longest = 21\<rparr>"

text \<open>
  Modelled from the spec: the state of an AddressSpaceAllocator (section 4.2): its pool,
  the FreeSet and the blocks currently allocated.
\<close>

record allocator =
  cfg :: pool
  free :: "block list"
  allocated :: "block list"

definition fresh_allocator :: "pool \<Rightarrow> allocator" where
  "fresh_allocator c = \<lparr>cfg = c, free = [span c], allocated = []\<rparr>"

text \<open>
  Modelled from the spec: the choice of Reserve: among the free blocks that are large
  enough, the smallest, "with ties broken by lowest base address".
\<close>

definition better :: "block \<Rightarrow> block \<Rightarrow> bool" where
  "better x y = (plen y < plen x \<or> (plen x = plen y \<and> base x < base y))"

definition best_fit :: "nat \<Rightarrow> block list \<Rightarrow> block option" where
  "best_fit p fs =
     (case filter (\<lambda>x. plen x \<le> p) fs of
        [] \<Rightarrow> None
      | c # cs \<Rightarrow> Some (foldl (\<lambda>a x. if better x a then x else a) c cs))"

text \<open>
  Modelled from the spec: the buddy split: "a block of prefix length q splits into two
  blocks of prefix length q+1", repeated "until a sub-block of exactly prefix length p
  remains". The result is that sub-block and the unused siblings. The spec does not say
  which half is kept; the lower half is, which is what its reuse scenario of section 8
  needs.
\<close>

function split_block :: "block \<Rightarrow> nat \<Rightarrow> block \<times> block list" where
  "split_block x p =
     (if plen x < p
      then (let lower = Block (base x) (plen x + 1);
                upper = Block (base x + block_size (plen x + 1)) (plen x + 1);
                (r, siblings) = split_block lower p
            in (r, upper # siblings))
      else (x, []))"
  by pat_completeness auto
termination
  by (relation "measure (\<lambda>(x, p). p - plen x)") auto

declare split_block.simps [simp del]

text \<open>Modelled from the spec: Reserve (section 4.2), for the prefix length \<open>p\<close> of the size.\<close>

definition Reserve :: "nat \<Rightarrow> allocator \<Rightarrow> engine_error + (block \<times> allocator)" where
  "Reserve p A =
     (if p < plen (span (cfg A)) then Inl PoolExhausted
      else case best_fit p (free A) of
        None \<Rightarrow> Inl PoolExhausted
      | Some chosen \<Rightarrow>
          (let (r, siblings) = split_block chosen p
           in Inr (r, A\<lparr>free := siblings @ removeAll chosen (free A),
                        allocated := allocated A @ [r]\<rparr>)))"

text \<open>
  Modelled from the spec: the coalescing of Release: the block is inserted, and while its
  buddy is free too the two merge into their parent, "up to the pool boundary" \<open>lvl\<close>.
\<close>

function coalesce :: "nat \<Rightarrow> block \<Rightarrow> block list \<Rightarrow> block list" where
  "coalesce lvl x fs =
     (if lvl < plen x \<and> buddy x \<in> set fs
      then coalesce lvl (parent x) (removeAll (buddy x) fs)
      else x # fs)"
  by pat_completeness auto
termination
  by (relation "measure (\<lambda>(lvl, x, fs). plen x)") (auto simp: parent_def)

declare coalesce.simps [simp del]

text \<open>
  Modelled from the spec: Release (section 4.2). Releasing a block that is not allocated
  is \<open>InvalidRelease\<close> and leaves the state as it is.
\<close>

definition Release :: "block \<Rightarrow> allocator \<Rightarrow> engine_error + allocator" where
  "Release x A =
     (if x \<notin> set (allocated A) then Inl InvalidRelease
      else Inr (A\<lparr>allocated := removeAll x (allocated A),
                  free := coalesce (plen (span (cfg A))) x (free A)\<rparr>))"

text \<open>
  Modelled from the spec: PairingCoordinator (section 4.3) over the primary and the CGNAT
  allocator. Allocate reserves the primary block, then the CGNAT block; when the CGNAT
  reservation fails it releases the primary block and propagates the CGNAT failure.
\<close>

definition Allocate ::
  "string \<Rightarrow> sizing_request \<Rightarrow> allocator \<times> allocator
     \<Rightarrow> (engine_error + block \<times> block) \<times> (allocator \<times> allocator)" where
  "Allocate vpc_name req PC =
     (case PC of (P, C) \<Rightarrow>
      case SizingResolver req of
        Inl e \<Rightarrow> (Inl e, (P, C))
      | Inr (p, c) \<Rightarrow>
          (case Reserve (nat p) P of
             Inl e \<Rightarrow> (Inl e, (P, C))
           | Inr (primary_blk, P1) \<Rightarrow>
               (case Reserve (nat c) C of
                  Inl e \<Rightarrow>
                    (case Release primary_blk P1 of
                       Inl e' \<Rightarrow> (Inl e', (P1, C))
                     | Inr P2 \<Rightarrow> (Inl e, (P2, C)))
                | Inr (cgnat_blk, C1) \<Rightarrow> (Inr (primary_blk, cgnat_blk), (P1, C1)))))"

definition Deallocate ::
  "block \<times> block \<Rightarrow> allocator \<times> allocator \<Rightarrow> engine_error + allocator \<times> allocator" where
  "Deallocate blocks PC =
     (case (blocks, PC) of ((primary_blk, cgnat_blk), (P, C)) \<Rightarrow>
      case Release primary_blk P of
        Inl e \<Rightarrow> Inl e
      | Inr P1 \<Rightarrow> (case Release cgnat_blk C of Inl e \<Rightarrow> Inl e | Inr C1 \<Rightarrow> Inr (P1, C1)))"

text \<open>
  Modelled from the spec: AllocationLedger (section 4.4) and the VPC registry. A row is a
  live Allocation: its id, the owning VPC, its two blocks and the original request.
\<close>

record row =
  row_id :: nat
  owner :: string
  primary_block :: block
  cgnat_block :: block
  asked :: sizing_request

record engine =
  primary :: allocator
  cgnat :: allocator
  rows :: "row list"
  vpcs :: "string list"
  next_id :: nat

definition fresh_engine :: engine where
  "fresh_engine =
     \<lparr>primary = fresh_allocator Primary, cgnat = fresh_allocator CGNAT,
      rows = [], vpcs = [], next_id = 1\<rparr>"

definition register_vpc :: "string \<Rightarrow> string list \<Rightarrow> string list" where
  "register_vpc name vs = (if name \<in> set vs then vs else vs @ [name])"

definition Create :: "string \<Rightarrow> sizing_request \<Rightarrow> engine \<Rightarrow> engine_error + (row \<times> engine)" where
  "Create vpc_name req E =
     (case Allocate vpc_name req (primary E, cgnat E) of
        (Inl e, _) \<Rightarrow> Inl e
      | (Inr (primary_blk, cgnat_blk), (P, C)) \<Rightarrow>
          (let r = \<lparr>row_id = next_id E, owner = vpc_name, primary_block = primary_blk,
                    cgnat_block = cgnat_blk, asked = req\<rparr>
           in Inr (r, E\<lparr>primary := P, cgnat := C, rows := rows E @ [r],
                        vpcs := register_vpc vpc_name (vpcs E),
                        next_id := next_id E + 1\<rparr>)))"

definition List :: "engine \<Rightarrow> row list" where
  "List E = rows E"

definition Move :: "nat \<Rightarrow> string \<Rightarrow> engine \<Rightarrow> engine_error + engine" where
  "Move i new_vpc_name E =
     (case find (\<lambda>r. row_id r = i) (rows E) of
        None \<Rightarrow> Inl AllocationNotFound
      | Some _ \<Rightarrow>
          Inr (E\<lparr>rows := map (\<lambda>r. if row_id r = i then r\<lparr>owner := new_vpc_name\<rparr> else r) (rows E),
                 vpcs := register_vpc new_vpc_name (vpcs E)\<rparr>))"

definition Delete :: "nat \<Rightarrow> engine \<Rightarrow> engine_error + engine" where
  "Delete i E =
     (case find (\<lambda>r. row_id r = i) (rows E) of
        None \<Rightarrow> Inl AllocationNotFound
      | Some r \<Rightarrow>
          (case Deallocate (primary_block r, cgnat_block r) (primary E, cgnat E) of
             Inl e \<Rightarrow> Inl e
           | Inr (P, C) \<Rightarrow> Inr (E\<lparr>primary := P, cgnat := C, rows := remove1 r (rows E)\<rparr>)))"

fun delete_each :: "nat list \<Rightarrow> engine \<Rightarrow> engine_error + engine" where
  "delete_each [] E = Inr E"
| "delete_each (i # ids) E =
     (case Delete i E of Inl e \<Rightarrow> Inl e | Inr E1 \<Rightarrow> delete_each ids E1)"

definition DeleteVpc :: "string \<Rightarrow> engine \<Rightarrow> engine_error + (nat \<times> engine)" where
  "DeleteVpc name E =
     (if name \<notin> set (vpcs E) then Inl VpcNotFound
      else (let ids = map row_id (filter (\<lambda>r. owner r = name) (rows E)) in
            case delete_each ids E of
              Inl e \<Rightarrow> Inl e
            | Inr E1 \<Rightarrow> Inr (length ids, E1\<lparr>vpcs := removeAll name (vpcs E1)\<rparr>)))"

text \<open>
  The public operations as data, and a run of a sequence of them: an operation that
  fails leaves the engine as it was.
\<close>

datatype operation =
  DoCreate string sizing_request
  | DoDelete nat
  | DoMove nat string
  | DoDeleteVpc string

fun perform :: "operation \<Rightarrow> engine \<Rightarrow> engine" where
  "perform (DoCreate v req) E = (case Create v req E of Inl _ \<Rightarrow> E | Inr (_, E1) \<Rightarrow> E1)"
| "perform (DoDelete i) E = (case Delete i E of Inl _ \<Rightarrow> E | Inr E1 \<Rightarrow> E1)"
| "perform (DoMove i v) E = (case Move i v E of Inl _ \<Rightarrow> E | Inr E1 \<Rightarrow> E1)"
| "perform (DoDeleteVpc v) E = (case DeleteVpc v E of Inl _ \<Rightarrow> E | Inr (_, E1) \<Rightarrow> E1)"

definition run :: "operation list \<Rightarrow> engine \<Rightarrow> engine" where
  "run ops E = fold perform ops E"

text \<open>No two blocks of a list of blocks overlap.\<close>

fun no_overlap :: "block list \<Rightarrow> bool" where
  "no_overlap [] = True"
| "no_overlap (x # xs) = (list_all (\<lambda>y. \<not> overlaps x y) xs \<and> no_overlap xs)"

text \<open>The address range of a block, and families of blocks that are pairwise apart.\<close>

definition rng :: "block \<Rightarrow> nat set" where
  "rng x = {base x ..< base x + block_size (plen x)}"

definition apart :: "block set \<Rightarrow> bool" where
  "apart S = (\<forall>x \<in> S. \<forall>y \<in> S. x \<noteq> y \<longrightarrow> \<not> overlaps x y)"

text \<open>
  Modelled from the spec: the invariants of section 3. An allocator is \<open>sound\<close> when its
  blocks are aligned, lie no higher than the pool's own level, and no two of them, free
  or allocated, overlap. Its FreeSet is \<open>coalesced\<close> when "no two adjacent free blocks are
  ever left un-merged": no free block below the pool's level has its buddy free too. An
  engine is \<open>consistent\<close> when both allocators are sound and every ledger row holds
  blocks that its allocators have allocated, no block twice.
\<close>

definition sound :: "allocator \<Rightarrow> bool" where
  "sound A =
     (list_all aligned (free A @ allocated A) \<and> no_overlap (free A @ allocated A)
      \<and> list_all (\<lambda>x. plen (span (cfg A)) \<le> plen x) (free A @ allocated A))"

definition coalesced :: "allocator \<Rightarrow> bool" where
  "coalesced A =
     list_all (\<lambda>x. plen (span (cfg A)) < plen x \<longrightarrow> buddy x \<notin> set (free A)) (free A)"

definition consistent :: "engine \<Rightarrow> bool" where
  "consistent E =
     (sound (primary E) \<and> sound (cgnat E)
      \<and> distinct (map primary_block (rows E)) \<and> distinct (map cgnat_block (rows E))
      \<and> list_all (\<lambda>r. primary_block r \<in> set (allocated (primary E))
                      \<and> cgnat_block r \<in> set (allocated (cgnat E))) (rows E))"

text \<open>An engine is \<open>tidy\<close> when it is consistent and both FreeSets are coalesced.\<close>

definition tidy :: "engine \<Rightarrow> bool" where
  "tidy E = (consistent E \<and> coalesced (primary E) \<and> coalesced (cgnat E))"

text \<open>A pool with every address handed out, and the reuse scenario of section 8.\<close>

definition exhausted :: "pool \<Rightarrow> allocator" where
  "exhausted c = \<lparr>cfg = c, free = [], allocated = [span c]\<rparr>"

definition reuse_scenario :: "operation list" where
  "reuse_scenario =
     [DoCreate ''a'' (Hosts 100), DoCreate ''a'' (Hosts 500), DoDelete 1,
      DoCreate ''b'' (Hosts 60)]"

section \<open>JavaScript values used by the dashboard\<close>

text \<open>
  Strings are lists of code units; the model covers the code units 0..255. \<open>trim\<close> strips
  JavaScript white space and line terminators from both ends: in this range these are
  TAB, LF, VT, FF, CR, SPACE and NBSP.
\<close>

definition js_whitespace :: "char \<Rightarrow> bool" where
  "js_whitespace c = ((of_char c :: nat) \<in> {9, 10, 11, 12, 13, 32, 160})"

definition trim :: "string \<Rightarrow> string" where
  "trim s = rev (dropWhile js_whitespace (rev (dropWhile js_whitespace s)))"

text \<open>
  The Number values: a finite double as the rational number it denotes, the two infinities
  and \<open>NaN\<close>. The two zeros are one value here; they compare alike and \<open>JSON.stringify\<close>
  writes both as \<open>0\<close>.
\<close>

datatype js_number = NaN | Num rat | PosInf | NegInf

text \<open>The relational operators on numbers: every comparison with \<open>NaN\<close> is false.\<close>

fun js_lt :: "js_number \<Rightarrow> js_number \<Rightarrow> bool" where
  "js_lt NaN _ = False"
| "js_lt _ NaN = False"
| "js_lt (Num a) (Num b) = (a < b)"
| "js_lt (Num a) PosInf = True"
| "js_lt (Num a) NegInf = False"
| "js_lt PosInf _ = False"
| "js_lt NegInf NegInf = False"
| "js_lt NegInf _ = True"

definition js_gt :: "js_number \<Rightarrow> js_number \<Rightarrow> bool" where
  "js_gt a b = js_lt b a"

definition negate :: "js_number \<Rightarrow> js_number" where
  "negate x = (case x of NaN \<Rightarrow> NaN | Num v \<Rightarrow> Num (- v) | PosInf \<Rightarrow> NegInf | NegInf \<Rightarrow> PosInf)"

text \<open>
  The Number nearest to a real, as IEEE 754 binary64 rounds to nearest, ties to even: a
  positive \<open>q\<close> in the binade \<open>2^h \<le> q < 2^(h+1)\<close> is rounded to a multiple of \<open>2^(h-52)\<close>,
  below \<open>2^-1022\<close> to a multiple of \<open>2^-1074\<close>, and a result of \<open>2^1024\<close> or more is
  infinite. \<open>halvings q\<close> is that \<open>h\<close> for \<open>q \<ge> 1\<close>, and \<open>doublings q\<close> is \<open>-h\<close> for \<open>q < 1\<close>.
\<close>

definition pow2 :: "int \<Rightarrow> rat" where
  "pow2 k = (if 0 \<le> k then 2 ^ nat k else 1 / 2 ^ nat (- k))"

definition pow10 :: "int \<Rightarrow> rat" where
  "pow10 k = (if 0 \<le> k then 10 ^ nat k else 1 / 10 ^ nat (- k))"

function halvings :: "rat \<Rightarrow> nat" where
  "halvings q = (if 2 \<le> q then Suc (halvings (q / 2)) else 0)"
  by pat_completeness auto
termination
proof (relation "measure (\<lambda>q. nat \<lfloor>q\<rfloor>)")
  show "wf (measure (\<lambda>q. nat \<lfloor>q\<rfloor>))" by simp
next
  fix q :: rat
  assume q: "2 \<le> q"
  then have "q / 2 \<le> q - 1" by simp
  then have "\<lfloor>q / 2\<rfloor> \<le> \<lfloor>q - 1\<rfloor>" by (rule floor_mono)
  moreover from q have "1 \<le> \<lfloor>q\<rfloor>" by simp
  ultimately show "(q / 2, q) \<in> measure (\<lambda>q. nat \<lfloor>q\<rfloor>)"
    by simp
qed

function doublings :: "rat \<Rightarrow> nat" where
  "doublings q = (if 0 < q \<and> q < 1 then Suc (doublings (2 * q)) else 0)"
  by pat_completeness auto
termination
proof (relation "measure (\<lambda>q. nat \<lfloor>1 / q\<rfloor>)")
  show "wf (measure (\<lambda>q. nat \<lfloor>1 / q\<rfloor>))" by simp
next
  fix q :: rat
  assume q: "0 < q \<and> q < 1"
  then have x: "1 < 1 / q" by simp
  have "\<lfloor>1 / (2 * q)\<rfloor> < \<lfloor>1 / q\<rfloor>"
  proof (cases "2 \<le> 1 / q")
    case True
    then have "1 / (2 * q) \<le> 1 / q - 1" by (simp add: field_simps)
    then have "\<lfloor>1 / (2 * q)\<rfloor> \<le> \<lfloor>1 / q - 1\<rfloor>" by (rule floor_mono)
    then show ?thesis by simp
  next
    case False
    then have "1 / (2 * q) < 1" using q by (simp add: field_simps)
    moreover from q have "0 \<le> 1 / (2 * q)" by simp
    ultimately have "\<lfloor>1 / (2 * q)\<rfloor> = 0" by (simp add: floor_eq_iff)
    moreover from x have "1 \<le> \<lfloor>1 / q\<rfloor>" by simp
    ultimately show ?thesis by simp
  qed
  moreover from x have "0 < \<lfloor>1 / q\<rfloor>" by simp
  ultimately show "(2 * q, q) \<in> measure (\<lambda>q. nat \<lfloor>1 / q\<rfloor>)"
    by simp
qed

declare halvings.simps [simp del] doublings.simps [simp del]

definition round_half_even :: "rat \<Rightarrow> int" where
  "round_half_even m =
     (let f = \<lfloor>m\<rfloor>; r = m - of_int f
      in if r < 1 / 2 then f else if 1 / 2 < r then f + 1 else if even f then f else f + 1)"

definition round_pos :: "rat \<Rightarrow> js_number" where
  "round_pos q =
     (let e = (if q < pow2 (- 1022) then - 1074
               else (if 1 \<le> q then int (halvings q) else - int (doublings q)) - 52);
          v = of_int (round_half_even (q / pow2 e)) * pow2 e
      in if pow2 1024 \<le> v then PosInf else Num v)"

definition round_double :: "rat \<Rightarrow> js_number" where
  "round_double q =
     (if q = 0 then Num 0 else if 0 < q then round_pos q else negate (round_pos (- q)))"

definition is_digit :: "char \<Rightarrow> bool" where
  "is_digit c = (48 \<le> (of_char c :: nat) \<and> (of_char c :: nat) \<le> 57)"

definition digit_val :: "char \<Rightarrow> nat" where
  "digit_val c =
     (let n = (of_char c :: nat) in
      if 48 \<le> n \<and> n \<le> 57 then n - 48
      else if 97 \<le> n \<and> n \<le> 102 then n - 87
      else n - 55)"

definition is_hex_digit :: "char \<Rightarrow> bool" where
  "is_hex_digit c =
     (let n = (of_char c :: nat) in
      (48 \<le> n \<and> n \<le> 57) \<or> (97 \<le> n \<and> n \<le> 102) \<or> (65 \<le> n \<and> n \<le> 70))"

definition is_oct_digit :: "char \<Rightarrow> bool" where
  "is_oct_digit c = (48 \<le> (of_char c :: nat) \<and> (of_char c :: nat) \<le> 55)"

definition is_bin_digit :: "char \<Rightarrow> bool" where
  "is_bin_digit c = (c = CHR ''0'' \<or> c = CHR ''1'')"

definition radix_val :: "nat \<Rightarrow> string \<Rightarrow> nat" where
  "radix_val radix ds = foldl (\<lambda>a c. radix * a + digit_val c) 0 ds"

text \<open>
  \<open>ToNumber\<close> of a string (StringToNumber), as the comparisons \<open>hostCount < 1\<close> and
  \<open>hostCount > 4000\<close> apply it to the field's text. White space is trimmed and the empty
  string is 0. What remains must be a whole numeric literal, else the result is \<open>NaN\<close>:
  an unsigned \<open>0x\<close>, \<open>0o\<close> or \<open>0b\<close> integer, or an optionally signed decimal literal, which
  is \<open>Infinity\<close>, or digits with an optional fraction (\<open>12\<close>, \<open>12.\<close>, \<open>12.5\<close>, \<open>.5\<close>) and an
  optional exponent (\<open>e\<close> or \<open>E\<close>, an optional sign, digits). The literal's exact value is
  rounded to the nearest Number; the licence to drop digits after the twentieth is not
  used.
\<close>

definition exponent_split :: "string \<Rightarrow> string \<times> string option" where
  "exponent_split s =
     (let r = dropWhile (\<lambda>c. c \<noteq> CHR ''e'' \<and> c \<noteq> CHR ''E'') s
      in (takeWhile (\<lambda>c. c \<noteq> CHR ''e'' \<and> c \<noteq> CHR ''E'') s,
          if r = [] then None else Some (tl r)))"

definition signed_integer :: "string \<Rightarrow> int option" where
  "signed_integer s =
     (let ds = (if take 1 s = ''-'' \<or> take 1 s = ''+'' then drop 1 s else s)
      in if ds \<noteq> [] \<and> list_all is_digit ds
         then Some ((if take 1 s = ''-'' then - 1 else 1) * int (radix_val 10 ds))
         else None)"

definition unsigned_decimal :: "string \<Rightarrow> rat option" where
  "unsigned_decimal s =
     (case exponent_split s of
        (m, ex) \<Rightarrow>
          (let ip = takeWhile (\<lambda>c. c \<noteq> CHR ''.'') m;
               r = dropWhile (\<lambda>c. c \<noteq> CHR ''.'') m;
               fp = (if r = [] then [] else tl r)
           in if list_all is_digit ip \<and> list_all is_digit fp \<and> (ip \<noteq> [] \<or> fp \<noteq> [])
              then (case (case ex of None \<Rightarrow> Some 0 | Some x \<Rightarrow> signed_integer x) of
                      None \<Rightarrow> None
                    | Some k \<Rightarrow>
                        Some (of_nat (radix_val 10 (ip @ fp)) * pow10 (k - int (length fp))))
              else None))"

definition prefixed :: "string \<Rightarrow> nat option" where
  "prefixed s =
     (let p = take 2 s; ds = drop 2 s in
      if (p = ''0x'' \<or> p = ''0X'') \<and> ds \<noteq> [] \<and> list_all is_hex_digit ds
      then Some (radix_val 16 ds)
      else if (p = ''0o'' \<or> p = ''0O'') \<and> ds \<noteq> [] \<and> list_all is_oct_digit ds
      then Some (radix_val 8 ds)
      else if (p = ''0b'' \<or> p = ''0B'') \<and> ds \<noteq> [] \<and> list_all is_bin_digit ds
      then Some (radix_val 2 ds)
      else None)"

definition to_number :: "string \<Rightarrow> js_number" where
  "to_number s =
     (let t = trim s in
      if t = [] then Num 0
      else case prefixed t of
        Some n \<Rightarrow> round_double (of_nat n)
      | None \<Rightarrow>
          (let u = (if take 1 t = ''-'' \<or> take 1 t = ''+'' then drop 1 t else t) in
           if u = ''Infinity'' then (if take 1 t = ''-'' then NegInf else PosInf)
           else case unsigned_decimal u of
             None \<Rightarrow> NaN
           | Some q \<Rightarrow> if take 1 t = ''-'' then negate (round_double q) else round_double q))"

text \<open>
  \<open>parseInt(string)\<close> with no radix argument: leading white space is skipped, a sign is
  read, a \<open>0x\<close>/\<open>0X\<close> prefix selects radix 16, and the longest prefix of digits is read;
  no digit at all gives \<open>NaN\<close>, otherwise the result is the Number nearest to the integer
  read.
\<close>

definition parseInt :: "string \<Rightarrow> js_number" where
  "parseInt s =
     (let t = dropWhile js_whitespace s;
          u = (if take 1 t = ''-'' \<or> take 1 t = ''+'' then drop 1 t else t);
          hex = (take 2 u = ''0x'' \<or> take 2 u = ''0X'');
          ds = takeWhile (if hex then is_hex_digit else is_digit) (if hex then drop 2 u else u)
      in if ds = [] then NaN
         else if take 1 t = ''-''
         then negate (round_double (of_nat (radix_val (if hex then 16 else 10) ds)))
         else round_double (of_nat (radix_val (if hex then 16 else 10) ds)))"


text \<open>
  Decimal rendering of an integer, as a template literal renders a Number that is an
  integer below \<open>10^21\<close> in magnitude. It is applied to array lengths, HTTP status codes
  and allocation ids, the ledger's sequence numbers.
\<close>

definition digit_char :: "nat \<Rightarrow> char" where
  "digit_char d = char_of (48 + d)"

function show_nat :: "nat \<Rightarrow> string" where
  "show_nat n = (if n < 10 then [digit_char n] else show_nat (n div 10) @ [digit_char (n mod 10)])"
  by pat_completeness auto
termination
  by (relation "measure id") auto

declare show_nat.simps [simp del]

definition show_int :: "int \<Rightarrow> string" where
  "show_int i = (if i < 0 then CHR ''-'' # show_nat (nat (- i)) else show_nat (nat i))"

text \<open>
  \<open>encodeURIComponent\<close> on code units 0..255: letters, digits and \<open>- _ . ! ~ * ' ( )\<close> stay,
  every other code unit becomes the \<open>%XX\<close> escapes of its UTF-8 bytes.
\<close>

definition hex_char :: "nat \<Rightarrow> char" where
  "hex_char d = (if d < 10 then char_of (48 + d) else char_of (55 + d))"

definition percent_byte :: "nat \<Rightarrow> string" where
  "percent_byte b = [CHR ''%'', hex_char (b div 16), hex_char (b mod 16)]"

definition uri_unreserved :: "char \<Rightarrow> bool" where
  "uri_unreserved c =
     (let n = (of_char c :: nat) in
      (48 \<le> n \<and> n \<le> 57) \<or> (65 \<le> n \<and> n \<le> 90) \<or> (97 \<le> n \<and> n \<le> 122)
      \<or> c \<in> set ''-_.!~*()'' \<or> n = 39)"

definition encodeURIComponent :: "string \<Rightarrow> string" where
  "encodeURIComponent s =
     concat (map (\<lambda>c.
       let n = (of_char c :: nat) in
       if uri_unreserved c then [c]
       else if n < 128 then percent_byte n
       else percent_byte (192 + n div 64) @ percent_byte (128 + n mod 64)) s)"

section \<open>Requests, responses and the browser\<close>

text \<open>
  A value handed to \<open>JSON.stringify\<close> as a request body: an object literal as the list of
  its properties in insertion order.
\<close>

datatype js_value = JStr string | JNum js_number

type_synonym payload = "(string \<times> js_value) list"

record init =
  i_method :: "string option"
  i_headers :: "(string \<times> string) list option"
  i_body :: "payload option"

record request =
  url :: string
  meth :: "string option"
  hdrs :: "(string \<times> string) list"
  body :: "payload option"

text \<open>An allocation as the API exposes it, and the JSON bodies of its responses.\<close>

record allocation =
  allocation_id :: int
  vpc :: string
  primary_cidr :: string
  cgnat_cidr :: string
  usable_primary :: int
  usable_cgnat :: int
  requested_hosts :: "int option"
  requested_prefix :: "int option"

text \<open>
  What \<open>response.json()\<close> yields: \<open>NotJson m\<close> when it rejects with message \<open>m\<close>, an error
  object with its optional \<open>detail\<close>, an allocation, a plain array of allocations, a page
  object with optional \<open>items\<close> and \<open>total_count\<close>, or the \<open>deleted_count\<close> object of
  DeleteVpc.
\<close>

datatype json_body =
  NotJson string
  | ErrorDetail "string option"
  | AllocationJson allocation
  | AllocationList "allocation list"
  | AllocationPage "allocation list option" "nat option"
  | DeletedJson nat

record response =
  status :: nat
  statusText :: string
  json :: json_body

definition ok :: "response \<Rightarrow> bool" where
  "ok r = (200 \<le> status r \<and> status r \<le> 299)"

datatype fetch_result = Rejected string | Resolved response

text \<open>
  What a rejected promise or a \<open>catch\<close> clause holds: an \<open>Error\<close> the scripts throw
  themselves, or a \<open>TypeError\<close> of the platform; the scripts read its message.
\<close>

datatype js_error = Error string | TypeError string

definition error_message :: "js_error \<Rightarrow> string" where
  "error_message e = (case e of Error m \<Rightarrow> m | TypeError m \<Rightarrow> m)"

datatype view = Untouched | EmptyState | Cards "allocation list" | ConnectionError string

text \<open>
  The browser and page state the scripts read and write. \<open>storage\<close> is the localStorage
  item \<open>ipam_api_key\<close>. \<open>answers\<close> and \<open>confirms\<close> are the user's replies to the successive
  \<open>prompt\<close> and \<open>confirm\<close> dialogs (a dialog with no reply left is dismissed);
  \<open>prompt_log\<close> and \<open>confirm_log\<close> record the messages shown. \<open>server\<close> gives what \<open>fetch\<close>
  settles to, from the requests sent so far, the last being the current one; \<open>fetched\<close>
  records every request passed to \<open>fetch\<close>. \<open>uuid\<close> stands for the identifiers
  \<open>newReqId\<close> draws (\<open>crypto.randomUUID\<close> or the clock-and-random fallback).
  \<open>type_error_text\<close> is the platform's wording of the TypeError that the named \<open>Headers\<close>
  operation throws.
  \<open>status_log\<close> records the calls of \<open>setStatus\<close>, message and type, the last being what
  the page shows. \<open>timers\<close> holds the responses whose delayed status line is pending.
\<close>

record world =
  storage :: "string option"
  answers :: "string option list"
  prompt_log :: "string list"
  confirms :: "bool list"
  confirm_log :: "string list"
  server :: "request list \<Rightarrow> fetch_result"
  fetched :: "request list"
  uuid :: "nat \<Rightarrow> string"
  allocations :: "allocation list"
  allocationMode :: string
  vpc_name_field :: string
  host_count_field :: string
  prefix_length_field :: string
  form_shown :: bool
  focus :: "string option"
  status_log :: "(string \<times> string) list"
  loading :: bool
  create_loading :: bool
  container :: view
  timers :: "json_body list"
  type_error_text :: "string \<Rightarrow> string"

definition prompt :: "string \<Rightarrow> world \<Rightarrow> string option \<times> world" where
  "prompt msg w =
     (case answers w of
        [] \<Rightarrow> (None, w\<lparr>prompt_log := prompt_log w @ [msg]\<rparr>)
      | a # rest \<Rightarrow> (a, w\<lparr>answers := rest, prompt_log := prompt_log w @ [msg]\<rparr>))"

definition confirm :: "string \<Rightarrow> world \<Rightarrow> bool \<times> world" where
  "confirm msg w =
     (case confirms w of
        [] \<Rightarrow> (False, w\<lparr>confirm_log := confirm_log w @ [msg]\<rparr>)
      | a # rest \<Rightarrow> (a, w\<lparr>confirms := rest, confirm_log := confirm_log w @ [msg]\<rparr>))"

definition fetch :: "request \<Rightarrow> world \<Rightarrow> (js_error + response) \<times> world" where
  "fetch req w =
     (let sent = fetched w @ [req] in
      (case server w sent of Rejected m \<Rightarrow> Inl (TypeError m) | Resolved r \<Rightarrow> Inr r,
       w\<lparr>fetched := sent\<rparr>))"

section \<open>auth.js\<close>

text \<open>
  A \<open>Headers\<close> object as the list of its (name, value) pairs. Names are compared without
  regard to ASCII case, so they are kept in lower case. Before a pair is stored its value
  is normalised: leading and trailing HTTP white space (TAB, LF, CR, SPACE) is stripped.
  The name must be a token and the normalised value must hold no NUL, LF or CR, else the
  operation throws a TypeError: the result \<open>None\<close>. \<open>has\<close> is applied to the names
  \<open>X-API-Key\<close> and \<open>X-Request-Id\<close> only, which are tokens. With code units up to 255
  every string is a byte string, so the conversion of names and values to bytes never
  throws.
\<close>

definition lower_char :: "char \<Rightarrow> char" where
  "lower_char c =
     (let n = (of_char c :: nat) in if 65 \<le> n \<and> n \<le> 90 then char_of (n + 32) else c)"

definition lower :: "string \<Rightarrow> string" where
  "lower s = map lower_char s"

definition http_whitespace :: "char \<Rightarrow> bool" where
  "http_whitespace c = ((of_char c :: nat) \<in> {9, 10, 13, 32})"

definition normalize_value :: "string \<Rightarrow> string" where
  "normalize_value v = rev (dropWhile http_whitespace (rev (dropWhile http_whitespace v)))"

definition token_char :: "char \<Rightarrow> bool" where
  "token_char c =
     (let n = (of_char c :: nat) in
      (48 \<le> n \<and> n \<le> 57) \<or> (65 \<le> n \<and> n \<le> 90) \<or> (97 \<le> n \<and> n \<le> 122)
      \<or> n \<in> {33, 35, 36, 37, 38, 39, 42, 43, 45, 46, 94, 95, 96, 124, 126})"

definition header_name :: "string \<Rightarrow> bool" where
  "header_name n = (n \<noteq> [] \<and> list_all token_char n)"

definition header_value :: "string \<Rightarrow> bool" where
  "header_value v =
     (list_all (\<lambda>c. (of_char c :: nat) \<notin> {0, 10, 13}) v
      \<and> (v = [] \<or> ((of_char (hd v) :: nat) \<notin> {9, 32} \<and> (of_char (last v) :: nat) \<notin> {9, 32})))"

definition headers_append ::
  "(string \<times> string) list \<Rightarrow> string \<Rightarrow> string \<Rightarrow> (string \<times> string) list option" where
  "headers_append hs n v =
     (let value = normalize_value v in
      if header_name n \<and> header_value value then Some (hs @ [(lower n, value)]) else None)"

fun fill :: "(string \<times> string) list \<Rightarrow> (string \<times> string) list \<Rightarrow> (string \<times> string) list option" where
  "fill [] hs = Some hs"
| "fill ((n, v) # entries) hs =
     (case headers_append hs n v of None \<Rightarrow> None | Some hs' \<Rightarrow> fill entries hs')"

definition Headers :: "(string \<times> string) list \<Rightarrow> (string \<times> string) list option" where
  "Headers entries = fill entries []"

definition has :: "(string \<times> string) list \<Rightarrow> string \<Rightarrow> bool" where
  "has hs n = (lower n \<in> fst ` set hs)"

fun replace_first :: "(string \<times> string) list \<Rightarrow> string \<Rightarrow> string \<Rightarrow> (string \<times> string) list" where
  "replace_first [] n v = []"
| "replace_first ((k, x) # hs) n v =
     (if k = n then (k, v) # filter (\<lambda>(k', _). k' \<noteq> n) hs else (k, x) # replace_first hs n v)"

definition headers_set ::
  "(string \<times> string) list \<Rightarrow> string \<Rightarrow> string \<Rightarrow> (string \<times> string) list option" where
  "headers_set hs n v =
     (let value = normalize_value v in
      if header_name n \<and> header_value value
      then Some (if has hs n then replace_first hs (lower n) value else hs @ [(lower n, value)])
      else None)"

fun join_values :: "string list \<Rightarrow> string" where
  "join_values [] = []"
| "join_values [v] = v"
| "join_values (v # vs) = v @ '', '' @ join_values vs"

definition headers_get :: "(string \<times> string) list \<Rightarrow> string \<Rightarrow> string option" where
  "headers_get hs n =
     (case filter (\<lambda>(k, _). k = lower n) hs of
        [] \<Rightarrow> None
      | kvs \<Rightarrow> Some (join_values (map snd kvs)))"

definition HEADER :: string where
  "HEADER = ''X-API-Key''"

definition REQ_ID :: string where
  "REQ_ID = ''X-Request-Id''"

definition newReqId :: "world \<Rightarrow> string" where
  "newReqId w = uuid w (length (fetched w))"

definition Auth_get :: "world \<Rightarrow> string option" where
  "Auth_get w = (case storage w of None \<Rightarrow> None | Some k \<Rightarrow> if k = [] then None else Some k)"

definition Auth_clear :: "world \<Rightarrow> world" where
  "Auth_clear w = w\<lparr>storage := None\<rparr>"

definition Auth_set :: "string option \<Rightarrow> world \<Rightarrow> string option \<times> world" where
  "Auth_set k w =
     (case k of
        None \<Rightarrow> (None, Auth_clear w)
      | Some s \<Rightarrow> if s = [] then (None, Auth_clear w) else (Some s, w\<lparr>storage := Some s\<rparr>))"

definition Auth_ensure :: "world \<Rightarrow> (js_error + string) \<times> world" where
  "Auth_ensure w =
     (case Auth_get w of
        Some k \<Rightarrow> (Inr k, w)
      | None \<Rightarrow>
          (case prompt ''Enter API key'' w of
             (None, w1) \<Rightarrow> (Inl (Error ''API key required''), w1)
           | (Some k, w1) \<Rightarrow>
               if k = [] then (Inl (Error ''API key required''), w1)
               else (Inr k, snd (Auth_set (Some k) w1))))"

text \<open>
  \<open>api\<close>, lines 41-44: the request handed to \<open>fetch\<close>, given the key that \<open>ensure\<close>
  returned, or the TypeError thrown on the way. \<open>caller_headers\<close> is
  \<open>new Headers(init.headers || {})\<close>.
\<close>

definition caller_headers :: "init \<Rightarrow> (string \<times> string) list option" where
  "caller_headers ini = Headers (case i_headers ini of None \<Rightarrow> [] | Some hs \<Rightarrow> hs)"

definition api_request :: "string \<Rightarrow> init \<Rightarrow> string \<Rightarrow> world \<Rightarrow> js_error + request" where
  "api_request input ini key w =
     (case caller_headers ini of
        None \<Rightarrow> Inl (TypeError (type_error_text w ''Headers''))
      | Some h0 \<Rightarrow>
          (case (if \<not> has h0 ''X-API-Key'' then headers_set h0 ''X-API-Key'' key else Some h0) of
             None \<Rightarrow> Inl (TypeError (type_error_text w ''set''))
           | Some h1 \<Rightarrow>
               (case (if \<not> has h1 REQ_ID then headers_set h1 REQ_ID (newReqId w) else Some h1) of
                  None \<Rightarrow> Inl (TypeError (type_error_text w ''set''))
                | Some h2 \<Rightarrow>
                    Inr \<lparr>url = input, meth = i_method ini, hdrs = h2, body = i_body ini\<rparr>)))"

definition api :: "string \<Rightarrow> init \<Rightarrow> world \<Rightarrow> (js_error + response) \<times> world" where
  "api input ini w =
     (case Auth_ensure w of
        (Inl e, w1) \<Rightarrow> (Inl e, w1)
      | (Inr key, w1) \<Rightarrow>
          (case api_request input ini key w1 of
             Inl e \<Rightarrow> (Inl e, w1)
           | Inr req \<Rightarrow> fetch req w1))"

text \<open>The requests passed to \<open>fetch\<close> on the way from world \<open>w\<close> to world \<open>w'\<close>.\<close>

definition sent_between :: "world \<Rightarrow> world \<Rightarrow> request list" where
  "sent_between w w' = drop (length (fetched w)) (fetched w')"

section \<open>dashboard.js\<close>

text \<open>
  The page state is part of \<open>world\<close>. The HTML that \<open>renderAllocations\<close> and
  \<open>renderSummary\<close> write is a function of the cached \<open>allocations\<close>; of it the model keeps
  which view the container shows. The two spinners are the flags \<open>loading\<close> and
  \<open>create_loading\<close>.
\<close>

text \<open>The double quote character, for the messages that quote a name.\<close>

definition dq :: string where
  "dq = [char_of (34::nat)]"

definition setStatus :: "string \<Rightarrow> string \<Rightarrow> world \<Rightarrow> world" where
  "setStatus message type w = w\<lparr>status_log := status_log w @ [(message, type)]\<rparr>"

definition showLoading :: "bool \<Rightarrow> world \<Rightarrow> world" where
  "showLoading show w =
     (if show then setStatus ''Loading...'' ''loading'' (w\<lparr>loading := True\<rparr>)
      else w\<lparr>loading := False\<rparr>)"

definition showCreateLoading :: "bool \<Rightarrow> world \<Rightarrow> world" where
  "showCreateLoading show w = w\<lparr>create_loading := show\<rparr>"

definition setAllocationMode :: "string \<Rightarrow> world \<Rightarrow> world" where
  "setAllocationMode mode w = w\<lparr>allocationMode := mode\<rparr>"

definition toggleAllocationForm :: "world \<Rightarrow> world" where
  "toggleAllocationForm w =
     (let w1 = w\<lparr>form_shown := \<not> form_shown w\<rparr> in
      if form_shown w1 then w1\<lparr>focus := Some ''vpc-name''\<rparr>
      else setAllocationMode ''hosts''
             (w1\<lparr>vpc_name_field := [], host_count_field := [], prefix_length_field := []\<rparr>))"

definition renderAllocations :: "world \<Rightarrow> world" where
  "renderAllocations w =
     (if length (allocations w) = 0 then w\<lparr>container := EmptyState\<rparr>
      else w\<lparr>container := Cards (allocations w)\<rparr>)"

definition plural_s :: "nat \<Rightarrow> string" where
  "plural_s n = (if n \<noteq> 1 then ''s'' else [])"

text \<open>The allocations a parsed list response holds: the array itself, or \<open>data.items ?? []\<close>.\<close>

definition items_of :: "json_body \<Rightarrow> allocation list" where
  "items_of data =
     (case data of
        AllocationList xs \<Rightarrow> xs
      | AllocationPage (Some xs) _ \<Rightarrow> xs
      | _ \<Rightarrow> [])"

definition load_failed :: "string \<Rightarrow> world \<Rightarrow> world" where
  "load_failed message w =
     (setStatus (''Error: '' @ message) ''error'' w)\<lparr>container := ConnectionError message\<rparr>"

text \<open>\<open>loadAllocations\<close>, lines 158-178: what follows once the \<open>api\<close> call has settled.\<close>

definition load_settled :: "js_error + response \<Rightarrow> world \<Rightarrow> world" where
  "load_settled r w =
     (case r of
        Inl e \<Rightarrow> load_failed (error_message e) w
      | Inr resp \<Rightarrow>
          if \<not> ok resp
          then load_failed (''HTTP '' @ show_nat (status resp) @ '': '' @ statusText resp) w
          else (case json resp of
                  NotJson m \<Rightarrow> load_failed m w
                | data \<Rightarrow>
                    (let w1 = renderAllocations (w\<lparr>allocations := items_of data\<rparr>);
                         n = length (allocations w1)
                     in setStatus (''Loaded '' @ show_nat n @ '' allocation'' @ plural_s n)
                          ''success'' w1)))"

definition loadAllocations :: "world \<Rightarrow> world" where
  "loadAllocations w =
     (let w1 = showLoading True w;
          (r, w2) = api ''/allocations'' \<lparr>i_method = None, i_headers = None, i_body = None\<rparr> w1
      in showLoading False (load_settled r w2))"

text \<open>
  \<open>createAllocation\<close>, lines 77-95: the checks before anything is sent. The result is the
  status message and the element focused when a check refuses the form, \<open>None\<close> when the
  form passes.
\<close>

definition create_check :: "world \<Rightarrow> (string \<times> string) option" where
  "create_check w =
     (let vpcName = trim (vpc_name_field w);
          hostCount = host_count_field w;
          prefixLength = prefix_length_field w
      in if vpcName = [] then Some (''VPC name is required'', ''vpc-name'')
         else if allocationMode w = ''hosts''
         then (if hostCount = [] \<or> js_lt (to_number hostCount) (Num 1)
                  \<or> js_gt (to_number hostCount) (Num 4000)
               then Some (''Host count must be between 1 and 4000'', ''host-count'')
               else None)
         else (if prefixLength = []
               then Some (''Please select a prefix length'', ''prefix-length'')
               else None))"

text \<open>\<open>createAllocation\<close>, lines 101-107: the payload object.\<close>

definition create_payload :: "world \<Rightarrow> payload" where
  "create_payload w =
     (let payload = [(''vpc'', JStr (trim (vpc_name_field w)))] in
      if allocationMode w = ''hosts''
      then payload @ [(''hosts'', JNum (parseInt (host_count_field w)))]
      else payload @ [(''prefix_length'', JNum (parseInt (prefix_length_field w)))])"

definition json_headers :: "(string \<times> string) list" where
  "json_headers = [(''Content-Type'', ''application/json'')]"

text \<open>The message of the error thrown for a response that is not ok.\<close>

definition error_detail :: "json_body \<Rightarrow> string \<Rightarrow> js_error" where
  "error_detail errorData fallback =
     (case errorData of
        NotJson m \<Rightarrow> Error m
      | ErrorDetail (Some d) \<Rightarrow> if d = [] then Error fallback else Error d
      | _ \<Rightarrow> Error fallback)"

definition report_error :: "js_error \<Rightarrow> world \<Rightarrow> world" where
  "report_error e w = setStatus (''Error: '' @ error_message e) ''error'' w"

text \<open>\<open>createAllocation\<close>, lines 115-133: what follows once the \<open>api\<close> call has settled.\<close>

definition create_settled :: "js_error + response \<Rightarrow> world \<Rightarrow> world" where
  "create_settled r w =
     (case r of
        Inl e \<Rightarrow> report_error e w
      | Inr resp \<Rightarrow>
          if \<not> ok resp
          then report_error (error_detail (json resp) (''HTTP '' @ show_nat (status resp))) w
          else (case json resp of
                  NotJson m \<Rightarrow> report_error (Error m) w
                | result \<Rightarrow>
                    (let w1 = setStatus ''Allocation created successfully!'' ''success'' w;
                         w2 = loadAllocations (toggleAllocationForm w1)
                     in w2\<lparr>timers := timers w2 @ [result]\<rparr>)))"

text \<open>\<open>createAllocation\<close>, lines 97-136: the request, from the form that passed the checks.\<close>

definition create_submit :: "world \<Rightarrow> world" where
  "create_submit w =
     (let w1 = setStatus ''Creating allocation...'' ''loading'' (showCreateLoading True w);
          (r, w2) = api ''/allocate''
                      \<lparr>i_method = Some ''POST'', i_headers = Some json_headers,
                       i_body = Some (create_payload w)\<rparr> w1
      in showCreateLoading False (create_settled r w2))"

definition createAllocation :: "world \<Rightarrow> world" where
  "createAllocation w =
     (case create_check w of
        Some (message, element) \<Rightarrow> (setStatus message ''error'' w)\<lparr>focus := Some element\<rparr>
      | None \<Rightarrow> create_submit w)"

text \<open>
  The shared shape of lines 296-302, 322-328 and 350-356: an error is reported, a response
  that is not ok is reported with its detail or the fallback text, and otherwise the
  success message is shown and the list reloaded. The body of an ok response is not read.
\<close>

definition change_settled :: "string \<Rightarrow> string \<Rightarrow> js_error + response \<Rightarrow> world \<Rightarrow> world" where
  "change_settled fallback success r w =
     (case r of
        Inl e \<Rightarrow> report_error e w
      | Inr resp \<Rightarrow>
          if \<not> ok resp then report_error (error_detail (json resp) fallback) w
          else loadAllocations (setStatus success ''success'' w))"

definition editAllocationVpc :: "int \<Rightarrow> string \<Rightarrow> world \<Rightarrow> world" where
  "editAllocationVpc allocationId currentVpc w =
     (case prompt ''Move this allocation to which VPC?'' w of
        (None, w1) \<Rightarrow> w1
      | (Some newVpcName, w1) \<Rightarrow>
          if newVpcName = [] \<or> trim newVpcName = [] \<or> trim newVpcName = currentVpc then w1
          else
            (let w2 = setStatus ''Moving allocation to new VPC...'' ''loading'' w1;
                 (r, w3) = api (''/allocations/'' @ show_int allocationId)
                             \<lparr>i_method = Some ''PUT'', i_headers = Some json_headers,
                              i_body = Some [(''new_vpc_name'', JStr (trim newVpcName))]\<rparr> w2
             in change_settled ''Failed to move allocation''
                  (''Allocation moved to VPC '' @ dq @ trim newVpcName @ dq) r w3))"

definition deleteAllocation :: "int \<Rightarrow> string \<Rightarrow> world \<Rightarrow> world" where
  "deleteAllocation allocationId primaryCidr w =
     (case confirm (''Are you sure you want to delete allocation '' @ dq @ primaryCidr
                    @ dq @ ''?'' @ [char_of (10::nat), char_of (10::nat)]
                    @ ''This action cannot be undone.'') w of
        (False, w1) \<Rightarrow> w1
      | (True, w1) \<Rightarrow>
          (let w2 = setStatus ''Deleting allocation...'' ''loading'' w1;
               (r, w3) = api (''/allocations/'' @ show_int allocationId)
                           \<lparr>i_method = Some ''DELETE'', i_headers = None, i_body = None\<rparr> w2
           in change_settled ''Failed to delete allocation''
                (''Allocation '' @ dq @ primaryCidr @ dq @ '' deleted'') r w3))"

definition deleteVpc :: "string \<Rightarrow> world \<Rightarrow> world" where
  "deleteVpc vpcName w =
     (let vpcAllocations = filter (\<lambda>a. vpc a = vpcName) (allocations w) in
      case confirm (''Are you sure you want to delete VPC '' @ dq @ vpcName @ dq @ ''?''
                    @ [char_of (10::nat), char_of (10::nat)]
                    @ ''This will delete '' @ show_nat (length vpcAllocations)
                    @ '' allocation(s) for this VPC. This action cannot be undone.'') w of
        (False, w1) \<Rightarrow> w1
      | (True, w1) \<Rightarrow>
          (let w2 = setStatus ''Deleting VPC...'' ''loading'' w1;
               (r, w3) = api (''/vpcs/'' @ encodeURIComponent vpcName)
                           \<lparr>i_method = Some ''DELETE'', i_headers = None, i_body = None\<rparr> w2
           in change_settled ''Failed to delete VPC''
                (''VPC '' @ dq @ vpcName @ dq @ '' and '' @ show_nat (length vpcAllocations)
                 @ '' allocation(s) deleted'') r w3))"

text \<open>
  The page as the scripts' top-level declarations leave it (\<open>allocations = []\<close>,
  \<open>allocationMode = 'hosts'\<close>), with nothing stored, nobody answering dialogs, and the
  given server.
\<close>

definition fresh_page :: "(request list \<Rightarrow> fetch_result) \<Rightarrow> world" where
  "fresh_page srv =
     \<lparr>storage = None, answers = [], prompt_log = [], confirms = [], confirm_log = [],
      server = srv, fetched = [], uuid = (\<lambda>n. ''req-'' @ show_nat n),
      allocations = [], allocationMode = ''hosts'', vpc_name_field = [],
      host_count_field = [], prefix_length_field = [], form_shown = False, focus = None,
      status_log = [], loading = False, create_loading = False, container = Untouched,
      timers = [], type_error_text = (\<lambda>operation. operation @ '': invalid header'')\<rparr>"

section \<open>Example pages\<close>

text \<open>Concrete pages on which the properties below are evaluated.\<close>

definition move_world :: world where
  "move_world = (fresh_page (\<lambda>_. Rejected ''offline''))\<lparr>storage := Some ''k'', answers := [Some '' prod  '']\<rparr>"

definition stale_cache :: world where
  "stale_cache =
     (fresh_page (\<lambda>_. Resolved \<lparr>status = 200, statusText = ''OK'', json = DeletedJson 3\<rparr>))
       \<lparr>storage := Some ''k'', confirms := [True],
        allocations :=
          [\<lparr>allocation_id = 1, vpc = ''prod'', primary_cidr = ''10.0.0.0/26'',
            cgnat_cidr = ''100.64.0.0/21'', usable_primary = 59, usable_cgnat = 2043,
            requested_hosts = Some 10, requested_prefix = None\<rparr>]\<rparr>"

definition create_page :: world where
  "create_page =
     (fresh_page (\<lambda>_. Rejected ''offline''))
       \<lparr>storage := Some ''k'', vpc_name_field := '' prod '', host_count_field := ''100''\<rparr>"

definition prefix_page :: world where
  "prefix_page = create_page\<lparr>allocationMode := ''prefix'', prefix_length_field := ''24''\<rparr>"



definition keyed_page :: world where
  "keyed_page = (fresh_page (\<lambda>_. Rejected ''offline''))\<lparr>storage := Some ''stored-key''\<rparr>"

definition own_key :: init where
  "own_key = \<lparr>i_method = None, i_headers = Some [(''x-api-KEY'', ''mine'')], i_body = None\<rparr>"



definition plain_init :: init where
  "plain_init = \<lparr>i_method = None, i_headers = None, i_body = None\<rparr>"




section \<open>Properties of the sizing\<close>

lemma usable_ips_values:
  "usable_ips 20 = 4091" "usable_ips 21 = 2043" "usable_ips 22 = 1019"
  "usable_ips 23 = 507" "usable_ips 24 = 251" "usable_ips 25 = 123" "usable_ips 26 = 59"
  by (simp_all add: usable_ips_def)

lemma prefix_cases:
  fixes q :: int
  assumes "20 \<le> q" "q \<le> 26"
  shows "q = 20 \<or> q = 21 \<or> q = 22 \<or> q = 23 \<or> q = 24 \<or> q = 25 \<or> q = 26"
  using assms by arith

text \<open>
  C4, as stated, fails: for one host the table answers /26, while the smallest prefix
  length in 20..26 whose usable count covers one host is 20.
\<close>

theorem C4_smallest_prefix_counterexample:
  "resolve_hosts 1 = Inr 26 \<and> smallest_fitting_prefix 1 = Some 20
   \<and> 1 \<le> usable_ips 20 \<and> (20::int) < 26"
  by (simp add: resolve_hosts_def smallest_fitting_prefix_def usable_ips_def)

text \<open>
  C4, amended: for every host count \<open>h\<close> in 1..4091 the sizing resolves to the largest
  prefix length \<open>p\<close> in 20..26 (the smallest block) with \<open>2^(32 - p) - 5 \<ge> h\<close>, and every
  row's upper bound in the table equals \<open>2^(32 - p) - 5\<close> for the row's prefix.
\<close>

theorem C4_sizing_table:
  assumes "1 \<le> h" "h \<le> 4091"
  shows "\<exists>p. resolve_hosts h = Inr p \<and> 20 \<le> p \<and> p \<le> 26 \<and> h \<le> usable_ips p
           \<and> (\<forall>q. 20 \<le> q \<and> q \<le> 26 \<and> h \<le> usable_ips q \<longrightarrow> q \<le> p)
           \<and> list_all (\<lambda>(bound, p). usable_ips p = bound) sizing_rows"
proof -
  have rows: "list_all (\<lambda>(bound, p). usable_ips p = bound) sizing_rows"
    by (simp add: sizing_rows_def usable_ips_values)
  have "\<exists>p. resolve_hosts h = Inr p \<and> 20 \<le> p \<and> p \<le> 26 \<and> h \<le> usable_ips p"
    using assms by (simp add: resolve_hosts_def usable_ips_values)
  then obtain p where p: "resolve_hosts h = Inr p" "20 \<le> p" "p \<le> 26" "h \<le> usable_ips p"
    by blast
  have "q \<le> p" if q: "20 \<le> q" "q \<le> 26" "h \<le> usable_ips q" for q
  proof -
    from prefix_cases [OF q(1,2)] q(3) p(1) assms show ?thesis
      by (auto simp: resolve_hosts_def usable_ips_values split: if_splits)
  qed
  with p rows show ?thesis by blast
qed

theorem C4_sizing_table_witness:
  "(1::int) \<le> 60 \<and> (60::int) \<le> 4091 \<and> resolve_hosts 60 = Inr 25 \<and> usable_ips 25 = 123"
  using C4_sizing_table [of 60]
  by (simp add: resolve_hosts_def usable_ips_values)

text \<open>
  C5: for every primary prefix length \<open>p\<close> in 20..26 the paired CGNAT prefix is \<open>p - 5\<close>,
  which already lies in 15..21, so the clamp into 15..21 leaves it unchanged.
\<close>

theorem C5_cgnat_prefix_no_clamp:
  assumes "20 \<le> p" "p \<le> 26"
  shows "cgnat_prefix p = p - 5 \<and> 15 \<le> p - 5 \<and> p - 5 \<le> 21
         \<and> SizingResolver (Prefix p) = Inr (p, p - 5)"
  using assms
  by (simp add: cgnat_prefix_def clamp_def SizingResolver_def resolve_prefix_def)

theorem C5_cgnat_prefix_no_clamp_witness:
  "(20::int) \<le> 23 \<and> (23::int) \<le> 26 \<and> cgnat_prefix 23 = 18
   \<and> SizingResolver (Prefix 23) = Inr (23, 18)"
  using C5_cgnat_prefix_no_clamp [of 23] by simp

section \<open>Properties of the allocation engine\<close>


subsection \<open>Arithmetic of block sizes\<close>

lemma block_size_pos [simp]: "0 < block_size p"
  by (simp add: block_size_def)

lemma block_size_mono: "p \<le> q \<Longrightarrow> block_size q \<le> block_size p"
  by (simp add: block_size_def)

lemma block_size_dvd: "p \<le> q \<Longrightarrow> block_size q dvd block_size p"
  by (simp add: block_size_def le_imp_power_dvd)

lemma block_size_double: "p < 32 \<Longrightarrow> block_size p = 2 * block_size (Suc p)"
proof -
  assume "p < 32"
  then have "32 - p = Suc (32 - Suc p)" by simp
  then show ?thesis by (simp add: block_size_def)
qed

lemma xor_pow2_nat:
  "(a::nat) XOR 2 ^ n = (if odd (a div 2 ^ n) then a - 2 ^ n else a + 2 ^ n)"
proof -
  have le: "2 ^ n \<le> a" if "bit a n"
  proof (rule ccontr)
    assume "\<not> 2 ^ n \<le> a"
    then have "a div 2 ^ n = 0" by simp
    with that show False by (simp add: bit_iff_odd)
  qed
  have u: "unset_bit n a = (if bit a n then a - 2 ^ n else a)"
  proof (cases "bit a n")
    case True
    have "int (unset_bit n a) = int a - 2 ^ n"
      using True by (simp add: unset_bit_eq of_nat_unset_bit_eq bit_of_nat_iff_bit)
    also have "\<dots> = int (a - 2 ^ n)"
      using le [OF True] by (simp add: of_nat_diff)
    finally show ?thesis using True by (simp only: of_nat_eq_iff if_True)
  next
    case False
    have "int (unset_bit n a) = int a"
      using False by (simp add: unset_bit_eq of_nat_unset_bit_eq bit_of_nat_iff_bit)
    then show ?thesis using False by simp
  qed
  have "flip_bit n a = (if bit a n then a - 2 ^ n else a + 2 ^ n)"
    by (simp add: flip_bit_eq_if set_bit_eq u)
  then show ?thesis by (simp add: flip_bit_eq_xor bit_iff_odd)
qed

subsection \<open>Ranges\<close>

lemma overlaps_rng: "overlaps x y \<longleftrightarrow> rng x \<inter> rng y \<noteq> {}"
proof
  assume "overlaps x y"
  then have "max (base x) (base y) \<in> rng x \<inter> rng y"
    by (auto simp: overlaps_def rng_def max_def)
  then show "rng x \<inter> rng y \<noteq> {}" by blast
next
  assume "rng x \<inter> rng y \<noteq> {}"
  then obtain a where "a \<in> rng x" "a \<in> rng y" by blast
  then show "overlaps x y" by (auto simp: overlaps_def rng_def)
qed

lemma rng_nonempty [simp]: "rng x \<noteq> {}"
  by (simp add: rng_def)

lemma overlaps_refl [simp]: "overlaps x x"
  by (simp add: overlaps_rng)

lemma overlaps_sym: "overlaps x y \<longleftrightarrow> overlaps y x"
  by (auto simp: overlaps_rng)

lemma inside_overlaps: "rng x \<subseteq> rng y \<Longrightarrow> overlaps x y"
  using rng_nonempty [of x] by (auto simp: overlaps_rng simp del: rng_nonempty)

lemma inside_no_overlap: "rng x \<subseteq> rng y \<Longrightarrow> \<not> overlaps y z \<Longrightarrow> \<not> overlaps x z"
  by (auto simp: overlaps_rng)

subsection \<open>Families of blocks that do not overlap\<close>

lemma no_overlap_iff: "no_overlap xs \<longleftrightarrow> distinct xs \<and> apart (set xs)"
proof (induction xs)
  case Nil
  show ?case by (simp add: apart_def)
next
  case (Cons x xs)
  have "apart (set (x # xs)) \<and> x \<notin> set xs \<longleftrightarrow> (\<forall>y \<in> set xs. \<not> overlaps x y) \<and> apart (set xs)"
  proof
    assume a: "apart (set (x # xs)) \<and> x \<notin> set xs"
    then show "(\<forall>y \<in> set xs. \<not> overlaps x y) \<and> apart (set xs)"
      unfolding apart_def by (metis insert_iff list.set(2))
  next
    assume a: "(\<forall>y \<in> set xs. \<not> overlaps x y) \<and> apart (set xs)"
    then have "x \<notin> set xs" by auto
    moreover from a have "apart (set (x # xs))"
      unfolding apart_def by (auto simp: overlaps_sym)
    ultimately show "apart (set (x # xs)) \<and> x \<notin> set xs" by simp
  qed
  with Cons show ?case by (auto simp: list_all_iff)
qed

lemma apart_subset: "apart S \<Longrightarrow> T \<subseteq> S \<Longrightarrow> apart T"
  unfolding apart_def by blast

text \<open>Replacing a block of a family by blocks inside it keeps the family apart.\<close>

lemma apart_replace:
  assumes "apart S" "c \<in> S" "\<forall>n \<in> N. rng n \<subseteq> rng c" "apart N"
  shows "apart ((S - {c}) \<union> N)" "N \<inter> (S - {c}) = {}"
proof -
  have out: "\<not> overlaps n y" if "n \<in> N" "y \<in> S - {c}" for n y
  proof -
    from that assms(1,2) have "\<not> overlaps c y" unfolding apart_def by auto
    with that(1) assms(3) show ?thesis using inside_no_overlap by blast
  qed
  show "N \<inter> (S - {c}) = {}"
  proof (rule ccontr)
    assume "N \<inter> (S - {c}) \<noteq> {}"
    then obtain n where "n \<in> N" "n \<in> S - {c}" by blast
    with out [of n n] show False by simp
  qed
  show "apart ((S - {c}) \<union> N)"
    unfolding apart_def
  proof (intro ballI impI)
    fix x y
    assume x: "x \<in> S - {c} \<union> N" and y: "y \<in> S - {c} \<union> N" and ne: "x \<noteq> y"
    show "\<not> overlaps x y"
    proof (cases "x \<in> N")
      case True
      show ?thesis
      proof (cases "y \<in> N")
        case True
        with \<open>x \<in> N\<close> ne assms(4) show ?thesis unfolding apart_def by blast
      next
        case False
        with y have "y \<in> S - {c}" by blast
        with True out show ?thesis by blast
      qed
    next
      case False
      with x have xs: "x \<in> S - {c}" by blast
      show ?thesis
      proof (cases "y \<in> N")
        case True
        with xs out [of y x] show ?thesis by (simp add: overlaps_sym)
      next
        case False
        with y have "y \<in> S - {c}" by blast
        with xs ne assms(1) show ?thesis unfolding apart_def by blast
      qed
    qed
  qed
qed

subsection \<open>Splitting\<close>

lemma split_block_eq:
  "plen x \<le> p \<Longrightarrow>
   split_block x p
     = (Block (base x) p, map (\<lambda>k. Block (base x + block_size k) k) [Suc (plen x) ..< Suc p])"
proof (induction "p - plen x" arbitrary: x)
  case 0
  then have "plen x = p" by simp
  then show ?case by (cases x) (simp add: split_block.simps)
next
  case (Suc n)
  then have lt: "plen x < p" by simp
  let ?lower = "Block (base x) (plen x + 1)"
  from Suc have "n = p - plen ?lower" "plen ?lower \<le> p" by simp_all
  from Suc.hyps(1) [OF this]
  have "split_block ?lower p
     = (Block (base x) p, map (\<lambda>k. Block (base x + block_size k) k) [Suc (Suc (plen x)) ..< Suc p])"
    by simp
  moreover have "[Suc (plen x) ..< Suc p] = Suc (plen x) # [Suc (Suc (plen x)) ..< Suc p]"
    using lt by (simp add: upt_conv_Cons)
  ultimately show ?case
    using lt by (subst split_block.simps) (simp add: Let_def)
qed

lemma sibling_bound:
  assumes "q < k" "k \<le> 32"
  shows "2 * block_size k \<le> block_size q"
proof -
  from assms have "k - 1 < 32" "Suc (k - 1) = k" "q \<le> k - 1" by simp_all
  then show ?thesis
    using block_size_double [of "k - 1"] block_size_mono [of q "k - 1"] by simp
qed

lemma sibling_inside:
  assumes "plen x < k" "k \<le> 32"
  shows "rng (Block (base x + block_size k) k) \<subseteq> rng x"
  using sibling_bound [OF assms] by (auto simp: rng_def)

lemma sibling_aligned:
  assumes "aligned x" "plen x < k" "k \<le> 32"
  shows "aligned (Block (base x + block_size k) k)"
proof -
  from assms have "block_size k dvd block_size (plen x)"
    by (simp add: block_size_dvd)
  with assms(1) have "block_size k dvd base x"
    unfolding aligned_def using dvd_trans by blast
  with assms(3) show ?thesis by (simp add: aligned_def)
qed

lemma siblings_apart:
  assumes "plen x < j" "j < k" "k \<le> 32"
  shows "\<not> overlaps (Block (base x + block_size j) j) (Block (base x + block_size k) k)"
  using sibling_bound [of j k] assms by (simp add: overlaps_def)

lemma part_sibling_apart:
  assumes "k \<le> p" "p \<le> 32"
  shows "\<not> overlaps (Block (base x) p) (Block (base x + block_size k) k)"
  using block_size_mono [OF assms(1)] by (simp add: overlaps_def)

text \<open>What a split of an aligned block yields: the part reserved and its siblings.\<close>

lemma split_block_parts:
  assumes "aligned x" "plen x \<le> p" "p \<le> 32" "split_block x p = (r, sibs)"
  shows "r = Block (base x) p"
    and "\<forall>n \<in> set (r # sibs). aligned n \<and> rng n \<subseteq> rng x \<and> plen x \<le> plen n"
    and "no_overlap (r # sibs)"
    and "plen x < p \<Longrightarrow> r \<noteq> x"
proof -
  let ?sib = "\<lambda>k. Block (base x + block_size k) k"
  from assms(2,4) have r: "r = Block (base x) p" and sibs: "sibs = map ?sib [Suc (plen x) ..< Suc p]"
    by (simp_all add: split_block_eq)
  show "r = Block (base x) p" by (rule r)
  show "plen x < p \<Longrightarrow> r \<noteq> x" using r by (cases x) auto
  have r_al: "aligned r"
  proof -
    from assms have "block_size p dvd block_size (plen x)" by (simp add: block_size_dvd)
    with assms(1) have "block_size p dvd base x"
      unfolding aligned_def using dvd_trans by blast
    with assms(3) r show ?thesis by (simp add: aligned_def)
  qed
  have r_in: "rng r \<subseteq> rng x"
    using block_size_mono [OF assms(2)] r by (auto simp: rng_def)
  show "\<forall>n \<in> set (r # sibs). aligned n \<and> rng n \<subseteq> rng x \<and> plen x \<le> plen n"
  proof
    fix n
    assume "n \<in> set (r # sibs)"
    then have "n = r \<or> n \<in> ?sib ` {Suc (plen x) ..< Suc p}"
      by (simp add: sibs del: upt_Suc)
    then consider "n = r" | k where "n = ?sib k" "plen x < k" "k \<le> p"
      by (elim disjE imageE) (simp_all only: atLeastLessThan_iff Suc_le_eq less_Suc_eq_le)
    then show "aligned n \<and> rng n \<subseteq> rng x \<and> plen x \<le> plen n"
    proof cases
      case 1
      with r_al r_in r assms(2) show ?thesis by simp
    next
      case (2 k)
      with assms(3) have "k \<le> 32" by simp
      with 2 assms(1) show ?thesis
        using sibling_aligned [of x k] sibling_inside [of x k] by simp
    qed
  qed
  have d: "distinct sibs"
    unfolding sibs by (simp add: distinct_map inj_on_def)
  have "apart (set sibs)"
    unfolding apart_def sibs
  proof (intro ballI impI)
    fix a b
    assume A: "a \<in> set (map ?sib [Suc (plen x) ..< Suc p])"
      and B: "b \<in> set (map ?sib [Suc (plen x) ..< Suc p])"
      and ne: "a \<noteq> b"
    from A obtain j where j: "j \<in> set [Suc (plen x) ..< Suc p]" "a = ?sib j"
      unfolding set_map by blast
    from B obtain k where k: "k \<in> set [Suc (plen x) ..< Suc p]" "b = ?sib k"
      unfolding set_map by blast
    from j(1) have "Suc (plen x) \<le> j \<and> j < Suc p"
      by (simp only: set_upt atLeastLessThan_iff)
    with j(2) have a: "a = ?sib j" "plen x < j" "j \<le> p" by simp_all
    from k(1) have "Suc (plen x) \<le> k \<and> k < Suc p"
      by (simp only: set_upt atLeastLessThan_iff)
    with k(2) have b: "b = ?sib k" "plen x < k" "k \<le> p" by simp_all
    from ne a b have "j \<noteq> k" by auto
    then consider "j < k" | "k < j" by linarith
    then show "\<not> overlaps a b"
    proof cases
      case 1
      with a b assms(3) show ?thesis using siblings_apart [of x j k] by simp
    next
      case 2
      with a b assms(3) show ?thesis
        using siblings_apart [of x k j] by (simp add: overlaps_sym)
    qed
  qed
  with d have "no_overlap sibs" by (simp add: no_overlap_iff)
  moreover have "list_all (\<lambda>y. \<not> overlaps r y) sibs"
    unfolding list_all_iff sibs r set_map
  proof (intro ballI)
    fix y
    assume "y \<in> ?sib ` set [Suc (plen x) ..< Suc p]"
    then obtain k where "k \<in> set [Suc (plen x) ..< Suc p]" "y = ?sib k" by blast
    then have "k \<le> p" "y = ?sib k" by (simp_all only: set_upt atLeastLessThan_iff less_Suc_eq_le)
    with assms(3) show "\<not> overlaps (Block (base x) p) y"
      using part_sibling_apart [of k p x] by simp
  qed
  ultimately show "no_overlap (r # sibs)" by simp
qed

subsection \<open>Best fit\<close>

lemma foldl_choice_mem: "foldl (\<lambda>a x. if P x a then x else a) c cs \<in> set (c # cs)"
  by (induction cs arbitrary: c) auto

lemma best_fit_mem:
  assumes "best_fit p fs = Some c"
  shows "c \<in> set fs" "plen c \<le> p"
proof -
  from assms obtain d ds where f: "filter (\<lambda>x. plen x \<le> p) fs = d # ds"
    and c: "c = foldl (\<lambda>a x. if better x a then x else a) d ds"
    by (auto simp: best_fit_def split: list.splits)
  have "c \<in> set (d # ds)" unfolding c by (rule foldl_choice_mem)
  with f have "c \<in> set (filter (\<lambda>x. plen x \<le> p) fs)" by simp
  then show "c \<in> set fs" "plen c \<le> p" by auto
qed

subsection \<open>Reserve\<close>

lemma Reserve_cases:
  assumes "Reserve p A = Inr (r, A')"
  obtains c sibs where "plen (span (cfg A)) \<le> p" "best_fit p (free A) = Some c"
    "split_block c p = (r, sibs)"
    "A' = A\<lparr>free := sibs @ removeAll c (free A), allocated := allocated A @ [r]\<rparr>"
  using assms
  by (auto simp: Reserve_def Let_def split: if_splits option.splits prod.splits)

lemma Reserve_sound:
  assumes "sound A" "p \<le> 32" "Reserve p A = Inr (r, A')"
  shows "sound A'" and "set (allocated A') = insert r (set (allocated A))"
    and "r \<notin> set (allocated A)" and "cfg A' = cfg A" and "plen r = p"
proof -
  from assms(3) obtain c sibs where lvl: "plen (span (cfg A)) \<le> p"
    and bf: "best_fit p (free A) = Some c" and sp: "split_block c p = (r, sibs)"
    and A': "A' = A\<lparr>free := sibs @ removeAll c (free A), allocated := allocated A @ [r]\<rparr>"
    by (rule Reserve_cases)
  let ?F = "free A" and ?Al = "allocated A"
  let ?S = "set (?F @ ?Al)" and ?N = "set (r # sibs)"
  from bf have c: "c \<in> set ?F" "plen c \<le> p" by (rule best_fit_mem)+
  from assms(1) have al: "\<forall>x \<in> ?S. aligned x" and d: "distinct (?F @ ?Al)"
    and ap: "apart ?S" and low: "\<forall>x \<in> ?S. plen (span (cfg A)) \<le> plen x"
    by (simp_all add: sound_def no_overlap_iff list_all_iff)
  from al c have c_al: "aligned c" by simp
  note parts = split_block_parts [OF c_al c(2) assms(2) sp]
  from parts(3) have dN: "distinct (r # sibs)" and apN: "apart ?N"
    by (simp_all add: no_overlap_iff)
  from parts(2) have inN: "\<forall>n \<in> ?N. rng n \<subseteq> rng c" by blast
  from c have cS: "c \<in> ?S" by simp
  note rep = apart_replace [OF ap cS inN apN]
  from d c have c_notAl: "c \<notin> set ?Al" by auto
  show "cfg A' = cfg A" by (simp add: A')
  show "plen r = p" using parts(1) by simp
  show "set (allocated A') = insert r (set (allocated A))" by (simp add: A')
  show r_new: "r \<notin> set (allocated A)"
  proof
    assume "r \<in> set ?Al"
    with c_notAl have "r \<in> ?S - {c}" by auto
    with rep(2) show False by auto
  qed
  have set': "set (free A' @ allocated A') = (?S - {c}) \<union> ?N"
    using c_notAl by (auto simp: A')
  have "distinct (free A' @ allocated A')"
  proof -
    have "distinct (sibs @ removeAll c ?F @ ?Al @ [r])"
      using d dN rep(2) r_new c_notAl by (auto simp: distinct_removeAll)
    then show ?thesis by (simp add: A')
  qed
  moreover have "apart (set (free A' @ allocated A'))"
    using rep(1) by (simp only: set')
  moreover have "\<forall>x \<in> set (free A' @ allocated A'). aligned x"
    using al parts(2) by (auto simp only: set')
  moreover have "\<forall>x \<in> set (free A' @ allocated A'). plen (span (cfg A')) \<le> plen x"
  proof
    fix x
    assume "x \<in> set (free A' @ allocated A')"
    then consider "x \<in> ?N" | "x \<in> ?S" by (auto simp only: set')
    then show "plen (span (cfg A')) \<le> plen x"
    proof cases
      case 1
      with parts(2) have "plen c \<le> plen x" by blast
      moreover from low cS have "plen (span (cfg A)) \<le> plen c" by blast
      ultimately show ?thesis by (simp add: A')
    next
      case 2
      with low show ?thesis by (simp add: A')
    qed
  qed
  ultimately show "sound A'"
    by (simp add: sound_def no_overlap_iff list_all_iff)
qed

subsection \<open>Buddies and parents\<close>

lemma buddy_parent_eq:
  assumes "aligned x" "0 < plen x"
  shows "buddy x = Block (if odd (base x div block_size (plen x))
                          then base x - block_size (plen x)
                          else base x + block_size (plen x)) (plen x)"
    and "parent x = Block (if odd (base x div block_size (plen x))
                           then base x - block_size (plen x)
                           else base x) (plen x - 1)"
    and "block_size (plen x - 1) = 2 * block_size (plen x)"
    and "odd (base x div block_size (plen x)) \<Longrightarrow> block_size (plen x) \<le> base x"
proof -
  let ?s = "block_size (plen x)"
  show b: "buddy x = Block (if odd (base x div ?s) then base x - ?s else base x + ?s) (plen x)"
    by (simp add: buddy_def block_size_def xor_pow2_nat)
  then show "parent x = Block (if odd (base x div ?s) then base x - ?s else base x) (plen x - 1)"
    by (simp add: parent_def)
  from assms have "plen x - 1 < 32" "Suc (plen x - 1) = plen x"
    unfolding aligned_def by arith+
  then show "block_size (plen x - 1) = 2 * ?s"
    using block_size_double [of "plen x - 1"] by simp
  show "odd (base x div ?s) \<Longrightarrow> ?s \<le> base x"
  proof (rule ccontr)
    assume o: "odd (base x div ?s)" and "\<not> ?s \<le> base x"
    then have "base x div ?s = 0" by simp
    with o show False by simp
  qed
qed

lemma parent_rng:
  assumes "aligned x" "0 < plen x"
  shows "rng (parent x) = rng x \<union> rng (buddy x)"
proof -
  note e = buddy_parent_eq [OF assms]
  show ?thesis
  proof (cases "odd (base x div block_size (plen x))")
    case True
    with e(4) have "block_size (plen x) \<le> base x" by simp
    with True e(3) show ?thesis
      by (auto simp: e(1,2) rng_def)
  next
    case False
    with e(3) show ?thesis
      by (auto simp: e(1,2) rng_def)
  qed
qed

lemma parent_aligned:
  assumes "aligned x" "0 < plen x"
  shows "aligned (parent x)"
proof -
  note e = buddy_parent_eq [OF assms]
  let ?s = "block_size (plen x)"
  from assms(1) obtain m where m: "base x = ?s * m"
    by (auto simp: aligned_def)
  have dm: "base x div ?s = m" by (simp add: m)
  have "2 * ?s dvd base (parent x)"
  proof (cases "odd m")
    case True
    then obtain k where k: "m = 2 * k + 1" by (auto elim: oddE)
    have "base (parent x) = base x - ?s" using True dm by (simp add: e(2))
    also have "\<dots> = 2 * ?s * k" by (simp add: m k)
    finally show ?thesis by simp
  next
    case False
    then obtain k where k: "m = 2 * k" by (auto elim: evenE)
    have "base (parent x) = base x" using False dm by (simp add: e(2))
    also have "\<dots> = 2 * ?s * k" by (simp add: m k)
    finally show ?thesis by simp
  qed
  moreover have "plen (parent x) = plen x - 1" by (simp add: parent_def)
  moreover from assms(1) have "plen x - 1 \<le> 32"
    unfolding aligned_def by arith
  ultimately show ?thesis
    using e(3) by (simp add: aligned_def)
qed

lemma plen_buddy [simp]: "plen (buddy x) = plen x"
  by (simp add: buddy_def)

lemma plen_parent [simp]: "plen (parent x) = plen x - 1"
  by (simp add: parent_def)

text \<open>Merging two blocks of a family into a block that spans exactly the two.\<close>

lemma apart_merge:
  assumes "apart S" "x \<in> S" "y \<in> S" "rng z = rng x \<union> rng y"
  shows "apart (insert z (S - {x, y}))" "z \<notin> S - {x, y}"
proof -
  have out: "\<not> overlaps z w" if "w \<in> S - {x, y}" for w
  proof -
    from that assms(1,2,3) have "\<not> overlaps x w" "\<not> overlaps y w"
      unfolding apart_def by auto
    with assms(4) show ?thesis by (auto simp: overlaps_rng)
  qed
  show "z \<notin> S - {x, y}"
    using out [of z] by auto
  show "apart (insert z (S - {x, y}))"
    unfolding apart_def
  proof (intro ballI impI)
    fix a b
    assume a: "a \<in> insert z (S - {x, y})" and b: "b \<in> insert z (S - {x, y})" and ne: "a \<noteq> b"
    show "\<not> overlaps a b"
    proof (cases "a = z")
      case True
      with b ne have "b \<in> S - {x, y}" by auto
      with True out show ?thesis by simp
    next
      case False
      with a have aS: "a \<in> S - {x, y}" by simp
      show ?thesis
      proof (cases "b = z")
        case True
        with aS out [of a] show ?thesis by (simp add: overlaps_sym)
      next
        case False
        with b have "b \<in> S - {x, y}" by simp
        with aS ne assms(1) show ?thesis unfolding apart_def by blast
      qed
    qed
  qed
qed

subsection \<open>Coalescing\<close>

lemma coalesce_sound:
  assumes "aligned x" "\<forall>f \<in> set fs. aligned f \<and> lvl \<le> plen f" "lvl \<le> plen x"
    and "distinct fs" "x \<notin> set fs" "apart (insert x (set fs) \<union> X)"
    and "insert x (set fs) \<inter> X = {}"
  shows "(\<forall>f \<in> set (coalesce lvl x fs). aligned f \<and> lvl \<le> plen f)
         \<and> distinct (coalesce lvl x fs)
         \<and> apart (set (coalesce lvl x fs) \<union> X)
         \<and> set (coalesce lvl x fs) \<inter> X = {}"
  using assms
proof (induction lvl x fs rule: coalesce.induct)
  case (1 lvl x fs)
  show ?case
  proof (cases "lvl < plen x \<and> buddy x \<in> set fs")
    case False
    then have "coalesce lvl x fs = x # fs"
      by (subst coalesce.simps) auto
    with "1.prems" show ?thesis by simp
  next
    case True
    then have co: "coalesce lvl x fs = coalesce lvl (parent x) (removeAll (buddy x) fs)"
      by (subst coalesce.simps) simp
    from True have pos: "0 < plen x" by simp
    let ?S = "insert x (set fs) \<union> X"
    let ?fs' = "removeAll (buddy x) fs"
    have xS: "x \<in> ?S" and bS: "buddy x \<in> ?S" using True by simp_all
    note mg = apart_merge [OF "1.prems"(6) xS bS parent_rng [OF "1.prems"(1) pos]]
    have x_notX: "x \<notin> X" and b_notX: "buddy x \<notin> X"
      using "1.prems"(7) True by auto
    have eq: "insert (parent x) (?S - {x, buddy x}) = insert (parent x) (set ?fs') \<union> X"
      using x_notX b_notX "1.prems"(5) by auto
    have p1: "aligned (parent x)" using "1.prems"(1) pos by (rule parent_aligned)
    have p2: "\<forall>f \<in> set ?fs'. aligned f \<and> lvl \<le> plen f" using "1.prems"(2) by simp
    have p3: "lvl \<le> plen (parent x)" using True by auto
    have p4: "distinct ?fs'" using "1.prems"(4) by (simp add: distinct_removeAll)
    have ne: "parent x \<noteq> x" "parent x \<noteq> buddy x"
      using pos by (auto simp: parent_def buddy_def dest: arg_cong [where f = plen])
    have p5: "parent x \<notin> set ?fs'"
      using mg(2) ne "1.prems"(5) by auto
    have p6: "apart (insert (parent x) (set ?fs') \<union> X)"
      using mg(1) by (simp only: eq)
    have p7: "insert (parent x) (set ?fs') \<inter> X = {}"
      using mg(2) ne "1.prems"(7) by auto
    show ?thesis
      unfolding co by (rule "1.IH" [OF True p1 p2 p3 p4 p5 p6 p7])
  qed
qed

subsection \<open>Release\<close>

lemma Release_sound:
  assumes "sound A" "Release x A = Inr A'"
  shows "sound A'" and "set (allocated A') = set (allocated A) - {x}" and "cfg A' = cfg A"
proof -
  let ?F = "free A" and ?Al = "allocated A" and ?lvl = "plen (span (cfg A))"
  from assms(2) have x: "x \<in> set ?Al"
    and A': "A' = A\<lparr>allocated := removeAll x ?Al, free := coalesce ?lvl x ?F\<rparr>"
    by (auto simp: Release_def split: if_splits)
  show "cfg A' = cfg A" by (simp add: A')
  show "set (allocated A') = set (allocated A) - {x}" by (simp add: A')
  let ?X = "set ?Al - {x}"
  from assms(1) have al: "\<forall>y \<in> set (?F @ ?Al). aligned y \<and> ?lvl \<le> plen y"
    and d: "distinct (?F @ ?Al)" and ap: "apart (set (?F @ ?Al))"
    by (simp_all add: sound_def no_overlap_iff list_all_iff)
  have S: "insert x (set ?F) \<union> ?X = set (?F @ ?Al)" using x by auto
  have c1: "aligned x" "?lvl \<le> plen x" using al x by simp_all
  have c2: "\<forall>f \<in> set ?F. aligned f \<and> ?lvl \<le> plen f" using al by simp
  have c4: "distinct ?F" "x \<notin> set ?F" using d x by auto
  have c6: "apart (insert x (set ?F) \<union> ?X)" using ap by (simp only: S)
  have c7: "insert x (set ?F) \<inter> ?X = {}" using d by auto
  from coalesce_sound [OF c1(1) c2 c1(2) c4 c6 c7]
  have r1: "\<forall>f \<in> set (coalesce ?lvl x ?F). aligned f \<and> ?lvl \<le> plen f"
    and r2: "distinct (coalesce ?lvl x ?F)"
    and r3: "apart (set (coalesce ?lvl x ?F) \<union> ?X)"
    and r4: "set (coalesce ?lvl x ?F) \<inter> ?X = {}"
    by blast+
  have "distinct (free A' @ allocated A')"
    using r2 r4 d by (auto simp: A' distinct_removeAll)
  moreover have "apart (set (free A' @ allocated A'))"
    using r3 by (simp add: A')
  moreover have "\<forall>y \<in> set (free A' @ allocated A'). aligned y \<and> plen (span (cfg A')) \<le> plen y"
    using r1 al by (auto simp: A')
  ultimately show "sound A'"
    by (simp add: sound_def no_overlap_iff list_all_iff)
qed

subsection \<open>The pairing coordinator\<close>

lemma SizingResolver_range:
  assumes "SizingResolver req = Inr (p, c)"
  shows "20 \<le> p" "p \<le> 26" "c = p - 5"
proof -
  have "20 \<le> p \<and> p \<le> 26 \<and> c = p - 5"
  proof (cases req)
    case (Hosts h)
    with assms show ?thesis
      by (auto simp: SizingResolver_def resolve_hosts_def cgnat_prefix_def clamp_def
          split: if_splits)
  next
    case (Prefix q)
    with assms show ?thesis
      by (auto simp: SizingResolver_def resolve_prefix_def cgnat_prefix_def clamp_def
          split: if_splits)
  qed
  then show "20 \<le> p" "p \<le> 26" "c = p - 5" by simp_all
qed

lemma Allocate_sound:
  assumes "sound P" "sound C" "Allocate v req (P, C) = (res, (P', C'))"
  shows "sound P' \<and> sound C' \<and> cfg P' = cfg P \<and> cfg C' = cfg C
         \<and> (case res of
               Inl e \<Rightarrow> set (allocated P') = set (allocated P)
                        \<and> set (allocated C') = set (allocated C)
             | Inr (pb, cb) \<Rightarrow>
                 set (allocated P') = insert pb (set (allocated P)) \<and> pb \<notin> set (allocated P)
                 \<and> set (allocated C') = insert cb (set (allocated C)) \<and> cb \<notin> set (allocated C))"
proof (cases "SizingResolver req")
  case (Inl e)
  with assms show ?thesis by (auto simp: Allocate_def)
next
  case (Inr pc)
  obtain p c where pc: "pc = (p, c)" by (cases pc)
  with Inr have sz: "SizingResolver req = Inr (p, c)" by simp
  from SizingResolver_range [OF sz] have p32: "nat p \<le> 32" and c32: "nat c \<le> 32" by simp_all
  show ?thesis
  proof (cases "Reserve (nat p) P")
    case (Inl e)
    with assms sz show ?thesis by (auto simp: Allocate_def)
  next
    case (Inr r1)
    obtain pb P1 where r1: "r1 = (pb, P1)" by (cases r1)
    with Inr have rp: "Reserve (nat p) P = Inr (pb, P1)" by simp
    note sp = Reserve_sound [OF assms(1) p32 rp]
    show ?thesis
    proof (cases "Reserve (nat c) C")
      case (Inr r2)
      obtain cb C1 where r2: "r2 = (cb, C1)" by (cases r2)
      with Inr have rc: "Reserve (nat c) C = Inr (cb, C1)" by simp
      note sc = Reserve_sound [OF assms(2) c32 rc]
      from assms(3) sz rp rc have "res = Inr (pb, cb)" "P' = P1" "C' = C1"
        by (simp_all add: Allocate_def)
      with sp sc show ?thesis by simp
    next
      case (Inl e)
      from sp(2) have "pb \<in> set (allocated P1)" by simp
      then obtain P2 where rel: "Release pb P1 = Inr P2"
        by (simp add: Release_def)
      note sr = Release_sound [OF sp(1) rel]
      from assms(3) sz rp Inl rel have "res = Inl e" "P' = P2" "C' = C"
        by (simp_all add: Allocate_def)
      with sr sp assms(2) show ?thesis by auto
    qed
  qed
qed

subsection \<open>The ledger\<close>

lemma consistent_fresh: "consistent fresh_engine"
  by (simp add: consistent_def fresh_engine_def fresh_allocator_def sound_def Primary_def
        CGNAT_def aligned_def block_size_def)

lemma Create_consistent:
  assumes "consistent E" "Create v req E = Inr (r, E')"
  shows "consistent E'"
proof -
  obtain res P C where a: "Allocate v req (primary E, cgnat E) = (res, (P, C))"
    by (metis prod.exhaust)
  with assms(2) obtain pb cb where res: "res = Inr (pb, cb)"
    by (cases res) (auto simp: Create_def)
  from assms(1) have sP: "sound (primary E)" and sC: "sound (cgnat E)"
    by (simp_all add: consistent_def)
  from Allocate_sound [OF sP sC a] res
  have s': "sound P" "sound C"
    and pa: "set (allocated P) = insert pb (set (allocated (primary E)))"
      "pb \<notin> set (allocated (primary E))"
    and ca: "set (allocated C) = insert cb (set (allocated (cgnat E)))"
      "cb \<notin> set (allocated (cgnat E))"
    by simp_all
  from assms(2) a res
  have E': "E' = E\<lparr>primary := P, cgnat := C, rows := rows E @ [r],
                   vpcs := register_vpc v (vpcs E), next_id := next_id E + 1\<rparr>"
    and rb: "primary_block r = pb" "cgnat_block r = cb"
    by (auto simp: Create_def Let_def)
  from assms(1) have old: "\<forall>x \<in> set (rows E). primary_block x \<in> set (allocated (primary E))
                              \<and> cgnat_block x \<in> set (allocated (cgnat E))"
    and dp: "distinct (map primary_block (rows E))" and dc: "distinct (map cgnat_block (rows E))"
    by (simp_all add: consistent_def list_all_iff)
  from old pa(2) have "pb \<notin> primary_block ` set (rows E)" by auto
  moreover from old ca(2) have "cb \<notin> cgnat_block ` set (rows E)" by auto
  ultimately show ?thesis
    using s' pa(1) ca(1) old dp dc rb by (auto simp: consistent_def E' list_all_iff)
qed

lemma Move_consistent:
  assumes "consistent E" "Move i v E = Inr E'"
  shows "consistent E'"
proof -
  let ?f = "\<lambda>r. if row_id r = i then r\<lparr>owner := v\<rparr> else r"
  from assms(2) have E': "E' = E\<lparr>rows := map ?f (rows E), vpcs := register_vpc v (vpcs E)\<rparr>"
    by (auto simp: Move_def split: option.splits)
  have "primary_block \<circ> ?f = primary_block" "cgnat_block \<circ> ?f = cgnat_block"
    by (auto simp: fun_eq_iff)
  then have m: "map primary_block (rows E') = map primary_block (rows E)"
    "map cgnat_block (rows E') = map cgnat_block (rows E)"
    by (simp_all add: E')
  have l: "list_all (\<lambda>r. primary_block r \<in> set (allocated (primary E'))
                      \<and> cgnat_block r \<in> set (allocated (cgnat E'))) (rows E')"
    using assms(1) by (auto simp: consistent_def list_all_iff E')
  have "primary E' = primary E" "cgnat E' = cgnat E" by (simp_all add: E')
  with assms(1) m l show ?thesis
    unfolding consistent_def by simp
qed

lemma distinct_map_remove1:
  assumes "distinct (map f xs)" "r \<in> set xs"
  shows "distinct (map f (remove1 r xs))" "f r \<notin> f ` set (remove1 r xs)"
proof -
  from assms(1) have d: "distinct xs" and inj: "inj_on f (set xs)"
    by (simp_all add: distinct_map)
  from d have s: "set (remove1 r xs) = set xs - {r}" by simp
  from d inj show "distinct (map f (remove1 r xs))"
    by (auto simp: distinct_map s intro: inj_on_subset)
  from inj assms(2) show "f r \<notin> f ` set (remove1 r xs)"
    unfolding s by (auto dest: inj_onD)
qed

lemma Delete_consistent:
  assumes "consistent E" "Delete i E = Inr E'"
  shows "consistent E'"
proof -
  from assms(2) obtain r P C where f: "find (\<lambda>r. row_id r = i) (rows E) = Some r"
    and rp: "Release (primary_block r) (primary E) = Inr P"
    and rc: "Release (cgnat_block r) (cgnat E) = Inr C"
    and E': "E' = E\<lparr>primary := P, cgnat := C, rows := remove1 r (rows E)\<rparr>"
    by (auto simp: Delete_def Deallocate_def split: option.splits sum.splits)
  from f have r: "r \<in> set (rows E)"
    by (auto simp: find_Some_iff)
  from assms(1) have sP: "sound (primary E)" and sC: "sound (cgnat E)"
    and dp: "distinct (map primary_block (rows E))" and dc: "distinct (map cgnat_block (rows E))"
    and old: "\<forall>x \<in> set (rows E). primary_block x \<in> set (allocated (primary E))
                              \<and> cgnat_block x \<in> set (allocated (cgnat E))"
    by (simp_all add: consistent_def list_all_iff)
  note p = Release_sound [OF sP rp] and c = Release_sound [OF sC rc]
  note np = distinct_map_remove1 [OF dp r] and nc = distinct_map_remove1 [OF dc r]
  have "\<forall>x \<in> set (remove1 r (rows E)). primary_block x \<in> set (allocated P)
                              \<and> cgnat_block x \<in> set (allocated C)"
  proof
    fix x
    assume x: "x \<in> set (remove1 r (rows E))"
    then have "x \<in> set (rows E)" by (metis notin_set_remove1)
    with old have "primary_block x \<in> set (allocated (primary E))"
      "cgnat_block x \<in> set (allocated (cgnat E))" by simp_all
    moreover from x np(2) have "primary_block x \<noteq> primary_block r"
      by (metis imageI)
    moreover from x nc(2) have "cgnat_block x \<noteq> cgnat_block r"
      by (metis imageI)
    ultimately show "primary_block x \<in> set (allocated P) \<and> cgnat_block x \<in> set (allocated C)"
      by (simp add: p(2) c(2))
  qed
  with p(1) c(1) np(1) nc(1) show ?thesis
    by (simp add: consistent_def E' list_all_iff)
qed

lemma delete_each_consistent:
  "consistent E \<Longrightarrow> delete_each ids E = Inr E' \<Longrightarrow> consistent E'"
proof (induction ids arbitrary: E)
  case Nil
  then show ?case by simp
next
  case (Cons i ids)
  then obtain E1 where d: "Delete i E = Inr E1" and rest: "delete_each ids E1 = Inr E'"
    by (auto split: sum.splits)
  from Cons.prems(1) d have "consistent E1" by (rule Delete_consistent)
  then show ?case using rest by (rule Cons.IH)
qed

lemma DeleteVpc_consistent:
  assumes "consistent E" "DeleteVpc v E = Inr (n, E')"
  shows "consistent E'"
proof -
  from assms(2) obtain E1 where
    d: "delete_each (map row_id (filter (\<lambda>r. owner r = v) (rows E))) E = Inr E1"
    and E': "E' = E1\<lparr>vpcs := removeAll v (vpcs E1)\<rparr>"
    by (auto simp: DeleteVpc_def Let_def split: if_splits sum.splits)
  from assms(1) d have "consistent E1" by (rule delete_each_consistent)
  then show ?thesis by (simp add: consistent_def E')
qed

lemma perform_consistent: "consistent E \<Longrightarrow> consistent (perform op E)"
proof (cases op)
  case (DoCreate v req)
  assume "consistent E"
  then show ?thesis
    using Create_consistent [of E v req] DoCreate by (auto split: sum.splits)
next
  case (DoDelete i)
  assume "consistent E"
  then show ?thesis
    using Delete_consistent [of E i] DoDelete by (auto split: sum.splits)
next
  case (DoMove i v)
  assume "consistent E"
  then show ?thesis
    using Move_consistent [of E i v] DoMove by (auto split: sum.splits)
next
  case (DoDeleteVpc v)
  assume "consistent E"
  then show ?thesis
    using DeleteVpc_consistent [of E v] DoDeleteVpc by (auto split: sum.splits)
qed

lemma run_consistent: "consistent E \<Longrightarrow> consistent (run ops E)"
  unfolding run_def by (induction ops arbitrary: E) (simp_all add: perform_consistent)

lemma consistent_no_overlap:
  assumes "consistent E"
  shows "no_overlap (map primary_block (rows E))" "no_overlap (map cgnat_block (rows E))"
proof -
  from assms have "apart (set (free (primary E) @ allocated (primary E)))"
    "apart (set (free (cgnat E) @ allocated (cgnat E)))"
    by (simp_all add: consistent_def sound_def no_overlap_iff)
  moreover from assms
  have "set (map primary_block (rows E)) \<subseteq> set (free (primary E) @ allocated (primary E))"
    "set (map cgnat_block (rows E)) \<subseteq> set (free (cgnat E) @ allocated (cgnat E))"
    by (auto simp: consistent_def list_all_iff)
  ultimately have "apart (set (map primary_block (rows E)))"
    "apart (set (map cgnat_block (rows E)))"
    using apart_subset by blast+
  with assms show "no_overlap (map primary_block (rows E))"
    "no_overlap (map cgnat_block (rows E))"
    by (simp_all add: consistent_def no_overlap_iff)
qed

text \<open>
  C2: after any sequence of Create, Delete, Move (and DeleteVpc) operations on the fresh
  engine, no two live allocations' primary blocks overlap and no two live allocations'
  CGNAT blocks overlap.
\<close>

theorem C2_live_blocks_never_overlap:
  "no_overlap (map primary_block (List (run ops fresh_engine)))
   \<and> no_overlap (map cgnat_block (List (run ops fresh_engine)))"
  using consistent_no_overlap [OF run_consistent [OF consistent_fresh]]
  by (simp add: List_def)

text \<open>The rules that evaluate the engine on concrete pools and requests.\<close>

lemmas engine_eval =
  run_def Create_def Delete_def Move_def DeleteVpc_def Allocate_def Deallocate_def
  Reserve_def Release_def SizingResolver_def resolve_hosts_def resolve_prefix_def
  cgnat_prefix_def clamp_def best_fit_def better_def split_block_eq coalesce.simps
  buddy_def parent_def block_size_def fresh_engine_def fresh_allocator_def Primary_def
  CGNAT_def register_vpc_def Let_def List_def

theorem C2_live_blocks_never_overlap_witness:
  "map primary_block (List (run reuse_scenario fresh_engine))
     = [Block 167772672 23, Block 167772160 25]
   \<and> map cgnat_block (List (run reuse_scenario fresh_engine))
     = [Block 1681932288 18, Block 1681915904 20]
   \<and> no_overlap [Block 167772672 23, Block 167772160 25]
   \<and> no_overlap [Block 1681932288 18, Block 1681915904 20]"
proof -
  have p: "map primary_block (List (run reuse_scenario fresh_engine))
             = [Block 167772672 23, Block 167772160 25]"
    by (simp add: reuse_scenario_def engine_eval)
  have c: "map cgnat_block (List (run reuse_scenario fresh_engine))
             = [Block 1681932288 18, Block 1681915904 20]"
    by (simp add: reuse_scenario_def engine_eval)
  from C2_live_blocks_never_overlap [of reuse_scenario]
  have "no_overlap [Block 167772672 23, Block 167772160 25]
        \<and> no_overlap [Block 1681932288 18, Block 1681915904 20]"
    unfolding p c .
  with p c show ?thesis by simp
qed

subsection \<open>Undoing a reservation\<close>

lemma lower_part_even:
  assumes "aligned c" "plen c < k" "k \<le> 32"
  shows "even (base c div block_size k)"
proof -
  from assms(1) obtain m where m: "base c = block_size (plen c) * m"
    by (auto simp: aligned_def)
  from assms(2,3) have "32 - plen c = (32 - k) + (k - plen c)" by simp
  then have "block_size (plen c) = block_size k * 2 ^ (k - plen c)"
    by (simp add: block_size_def power_add)
  with m have "base c = block_size k * (2 ^ (k - plen c) * m)"
    by (simp add: mult.assoc)
  then have "base c div block_size k = 2 ^ (k - plen c) * m"
    using block_size_pos [of k] by (metis nonzero_mult_div_cancel_left less_numeral_extra(3))
  moreover from assms(2) have "even ((2::nat) ^ (k - plen c))" by simp
  ultimately show ?thesis by simp
qed

lemma lower_part_buddy:
  assumes "aligned c" "plen c < k" "k \<le> 32"
  shows "buddy (Block (base c) k) = Block (base c + block_size k) k"
    and "parent (Block (base c) k) = Block (base c) (k - 1)"
proof -
  from lower_part_even [OF assms]
  show b: "buddy (Block (base c) k) = Block (base c + block_size k) k"
    by (simp add: buddy_def block_size_def xor_pow2_nat)
  then show "parent (Block (base c) k) = Block (base c) (k - 1)"
    by (simp add: parent_def)
qed

text \<open>
  Releasing the part that a split reserved, with the split's siblings still free, merges
  all the way back to the block that was split, and no further when that block's own
  buddy is not free.
\<close>

lemma coalesce_unsplit:
  assumes "aligned c" "lvl \<le> plen c" "plen c \<le> k" "k \<le> 32"
    and "set fs = (\<lambda>j. Block (base c + block_size j) j) ` {plen c <.. k} \<union> G"
    and "(\<lambda>j. Block (base c + block_size j) j) ` {plen c <.. k} \<inter> G = {}"
    and "lvl < plen c \<longrightarrow> buddy c \<notin> G"
  shows "set (coalesce lvl (Block (base c) k) fs) = insert c G"
  using assms(3,4,5,6)
proof (induction "k - plen c" arbitrary: k fs)
  case 0
  then have k: "k = plen c" by simp
  then have x: "Block (base c) k = c" by simp
  from 0 k have fs: "set fs = G" by simp
  with assms(7) have "\<not> (lvl < plen c \<and> buddy c \<in> set fs)" by simp
  then have "coalesce lvl c fs = c # fs"
    by (subst coalesce.simps) auto
  with x fs show ?case by simp
next
  case (Suc n)
  let ?sib = "\<lambda>j. Block (base c + block_size j) j"
  let ?x = "Block (base c) k"
  from Suc have lt: "plen c < k" by simp
  note bp = lower_part_buddy [OF assms(1) lt Suc.prems(2)]
  from lt have kin: "k \<in> {plen c <.. k}" by simp
  with Suc.prems(3) have "buddy ?x \<in> set fs" by (simp add: bp(1))
  moreover from assms(2) lt have "lvl < plen ?x" by simp
  ultimately have co: "coalesce lvl ?x fs
                         = coalesce lvl (Block (base c) (k - 1)) (removeAll (?sib k) fs)"
    by (subst coalesce.simps) (simp add: bp)
  have inj: "inj ?sib" by (simp add: inj_on_def)
  have split: "{plen c <.. k} = insert k {plen c <.. k - 1}"
    using lt by auto
  have notG: "?sib k \<notin> G" using Suc.prems(4) kin by blast
  have "?sib k \<notin> ?sib ` {plen c <.. k - 1}"
    using lt by (auto dest: injD [OF inj])
  with notG Suc.prems(3)
  have s': "set (removeAll (?sib k) fs) = ?sib ` {plen c <.. k - 1} \<union> G"
    by (auto simp: split)
  have i': "?sib ` {plen c <.. k - 1} \<inter> G = {}"
    using Suc.prems(4) by (auto simp: split)
  from Suc.hyps(2) lt have n: "n = (k - 1) - plen c" by simp
  from lt Suc.prems(2) have r: "plen c \<le> k - 1" "k - 1 \<le> 32" by simp_all
  from Suc.hyps(1) [OF n r s' i'] show ?case
    by (simp only: co)
qed

lemma coalesced_cong:
  "set (free A') = set (free A) \<Longrightarrow> cfg A' = cfg A \<Longrightarrow> coalesced A' = coalesced A"
  by (simp add: coalesced_def list_all_iff)

lemma Reserve_Release:
  assumes "sound P" "coalesced P" "p \<le> 32" "Reserve p P = Inr (r, P1)"
  shows "\<exists>P2. Release r P1 = Inr P2 \<and> set (free P2) = set (free P)
              \<and> allocated P2 = allocated P \<and> cfg P2 = cfg P"
proof -
  from assms(4) obtain c sibs where lvl: "plen (span (cfg P)) \<le> p"
    and bf: "best_fit p (free P) = Some c" and sp: "split_block c p = (r, sibs)"
    and P1: "P1 = P\<lparr>free := sibs @ removeAll c (free P), allocated := allocated P @ [r]\<rparr>"
    by (rule Reserve_cases)
  let ?F = "free P" and ?Al = "allocated P" and ?lvl = "plen (span (cfg P))"
  let ?sib = "\<lambda>j. Block (base c + block_size j) j"
  from bf have c: "c \<in> set ?F" "plen c \<le> p" by (rule best_fit_mem)+
  from assms(1) have al: "\<forall>x \<in> set (?F @ ?Al). aligned x \<and> ?lvl \<le> plen x"
    and d: "distinct (?F @ ?Al)" and ap: "apart (set (?F @ ?Al))"
    by (simp_all add: sound_def no_overlap_iff list_all_iff)
  from al c have c_al: "aligned c" and c_lim: "?lvl \<le> plen c" by simp_all
  from c(2) sp have r: "r = Block (base c) p" and sibs: "sibs = map ?sib [Suc (plen c) ..< Suc p]"
    by (simp_all add: split_block_eq)
  note parts = split_block_parts [OF c_al c(2) assms(3) sp]
  from parts(3) have apN: "apart (set (r # sibs))" by (simp add: no_overlap_iff)
  from parts(2) have inN: "\<forall>n \<in> set (r # sibs). rng n \<subseteq> rng c" by blast
  from c have cS: "c \<in> set (?F @ ?Al)" by simp
  note rep = apart_replace [OF ap cS inN apN]
  from Reserve_sound(3) [OF assms(1,3,4)] have r_new: "r \<notin> set ?Al" .
  define P2 where "P2 = P1\<lparr>allocated := removeAll r (allocated P1),
                            free := coalesce (plen (span (cfg P1))) r (free P1)\<rparr>"
  have rel: "Release r P1 = Inr P2"
    by (simp add: Release_def P2_def P1)
  have a2: "allocated P2 = allocated P"
    using r_new by (simp add: P2_def P1)
  have set_sibs: "set sibs = ?sib ` {plen c <.. p}"
    unfolding sibs set_map set_upt by (rule arg_cong [where f = "\<lambda>S. ?sib ` S"]) auto
  have fs: "set (sibs @ removeAll c ?F) = ?sib ` {plen c <.. p} \<union> (set ?F - {c})"
    by (simp add: set_sibs)
  have disj: "?sib ` {plen c <.. p} \<inter> (set ?F - {c}) = {}"
    using rep(2) by (auto simp: set_sibs [symmetric])
  have stop: "?lvl < plen c \<longrightarrow> buddy c \<notin> set ?F - {c}"
    using assms(2) c(1) by (auto simp: coalesced_def list_all_iff)
  from coalesce_unsplit [OF c_al c_lim c(2) assms(3) fs disj stop]
  have "set (coalesce ?lvl r (sibs @ removeAll c ?F)) = insert c (set ?F - {c})"
    by (simp only: r)
  with c(1) have f2: "set (free P2) = set ?F"
    by (auto simp: P2_def P1)
  have "cfg P2 = cfg P" by (simp add: P2_def P1)
  with rel f2 a2 show ?thesis by blast
qed

text \<open>
  C3: if, during Allocate, the primary Reserve succeeds and the CGNAT Reserve fails, the
  primary block is released before the CGNAT failure is returned, and the Primary pool's
  FreeSet after the failed Allocate equals the FreeSet before it; the allocated blocks
  are those of before, and the CGNAT allocator is untouched.
\<close>

theorem C3_failed_pairing_rolls_back:
  assumes "sound P" "coalesced P"
    and "SizingResolver req = Inr (p, c)"
    and "Reserve (nat p) P = Inr (primary_blk, P1)"
    and "Reserve (nat c) C = Inl e"
  shows "\<exists>P2. Release primary_blk P1 = Inr P2
              \<and> Allocate v req (P, C) = (Inl e, (P2, C))
              \<and> set (free P2) = set (free P) \<and> allocated P2 = allocated P
              \<and> sound P2 \<and> coalesced P2"
proof -
  from SizingResolver_range [OF assms(3)] have p32: "nat p \<le> 32" by simp
  from Reserve_Release [OF assms(1,2) p32 assms(4)]
  obtain P2 where rel: "Release primary_blk P1 = Inr P2"
    and f: "set (free P2) = set (free P)" and a: "allocated P2 = allocated P"
    and g: "cfg P2 = cfg P"
    by blast
  from assms(3,4,5) rel have "Allocate v req (P, C) = (Inl e, (P2, C))"
    by (simp add: Allocate_def)
  moreover have "sound P2"
    using Release_sound(1) [OF Reserve_sound(1) [OF assms(1) p32 assms(4)] rel] .
  moreover have "coalesced P2"
    using coalesced_cong [OF f g] assms(2) by simp
  ultimately show ?thesis using rel f a by blast
qed

theorem C3_failed_pairing_rolls_back_witness:
  "sound (fresh_allocator Primary) \<and> coalesced (fresh_allocator Primary)
   \<and> SizingResolver (Hosts 100) = Inr (25, 20)
   \<and> fst (Allocate ''a'' (Hosts 100) (fresh_allocator Primary, exhausted CGNAT))
       = Inl PoolExhausted
   \<and> set (free (fst (snd (Allocate ''a'' (Hosts 100) (fresh_allocator Primary, exhausted CGNAT)))))
       = {Block 167772160 16}
   \<and> allocated (fst (snd (Allocate ''a'' (Hosts 100) (fresh_allocator Primary, exhausted CGNAT))))
       = []"
proof -
  let ?P = "fresh_allocator Primary" and ?C = "exhausted CGNAT"
  let ?P1 = "\<lparr>cfg = Primary,
              free = [Block 167804928 17, Block 167788544 18, Block 167780352 19,
                      Block 167776256 20, Block 167774208 21, Block 167773184 22,
                      Block 167772672 23, Block 167772416 24, Block 167772288 25],
              allocated = [Block 167772160 25]\<rparr>"
  have s: "sound ?P"
    by (simp add: sound_def fresh_allocator_def Primary_def aligned_def block_size_def)
  have k: "coalesced ?P"
    by (simp add: coalesced_def fresh_allocator_def Primary_def)
  have z: "SizingResolver (Hosts 100) = Inr (25, 20)"
    by (simp add: SizingResolver_def resolve_hosts_def cgnat_prefix_def clamp_def)
  have r1: "Reserve (nat 25) ?P = Inr (Block 167772160 25, ?P1)"
    by (simp add: Reserve_def best_fit_def split_block_eq block_size_def fresh_allocator_def
          Primary_def)
  have r2: "Reserve (nat 20) ?C = Inl PoolExhausted"
    by (simp add: Reserve_def best_fit_def exhausted_def CGNAT_def)
  have f: "set (free ?P) = {Block 167772160 16}" "allocated ?P = []"
    by (simp_all add: fresh_allocator_def Primary_def)
  from C3_failed_pairing_rolls_back [OF s k z r1 r2, of "''a''"]
  obtain P2 where "Allocate ''a'' (Hosts 100) (?P, ?C) = (Inl PoolExhausted, (P2, ?C))"
    "set (free P2) = set (free ?P)" "allocated P2 = allocated ?P"
    by blast
  with s k z f show ?thesis by simp
qed

subsection \<open>The FreeSet stays coalesced\<close>

lemma buddy_buddy [simp]: "buddy (buddy x) = x"
  by (simp add: buddy_def xor.assoc)

lemma buddy_neq [simp]: "buddy x \<noteq> x"
proof
  assume "buddy x = x"
  then have "base x XOR block_size (plen x) = base x"
    by (simp add: buddy_def) (metis block.sel(1))
  then have "block_size (plen x) = 0"
    by (metis xor.left_neutral xor_self_eq xor.assoc)
  then show False using block_size_pos [of "plen x"] by simp
qed

lemma coalesce_coalesced:
  assumes "\<forall>y \<in> set fs. lvl < plen y \<longrightarrow> buddy y \<notin> set fs"
  shows "\<forall>y \<in> set (coalesce lvl x fs). lvl < plen y \<longrightarrow> buddy y \<notin> set (coalesce lvl x fs)"
  using assms
proof (induction lvl x fs rule: coalesce.induct)
  case (1 lvl x fs)
  show ?case
  proof (cases "lvl < plen x \<and> buddy x \<in> set fs")
    case True
    then have co: "coalesce lvl x fs = coalesce lvl (parent x) (removeAll (buddy x) fs)"
      by (subst coalesce.simps) simp
    from "1.prems"
    have "\<forall>y \<in> set (removeAll (buddy x) fs). lvl < plen y \<longrightarrow> buddy y \<notin> set (removeAll (buddy x) fs)"
      by simp
    then show ?thesis
      unfolding co by (rule "1.IH" [OF True])
  next
    case False
    then have co: "coalesce lvl x fs = x # fs"
      by (subst coalesce.simps) auto
    show ?thesis
      unfolding co
    proof (intro ballI impI)
      fix y
      assume y: "y \<in> set (x # fs)" and l: "lvl < plen y"
      show "buddy y \<notin> set (x # fs)"
      proof (cases "y = x")
        case True
        with False l show ?thesis by simp
      next
        case ne: False
        with y have yf: "y \<in> set fs" by simp
        with "1.prems" l have "buddy y \<notin> set fs" by blast
        moreover have "buddy y \<noteq> x"
        proof
          assume e: "buddy y = x"
          then have "buddy x = y" by (metis buddy_buddy)
          moreover from e have "plen x = plen y" by (metis plen_buddy)
          ultimately show False using False yf l by simp
        qed
        ultimately show ?thesis by simp
      qed
    qed
  qed
qed

lemma Release_coalesced:
  assumes "coalesced A" "Release x A = Inr A'"
  shows "coalesced A'"
proof -
  from assms(2)
  have A': "A' = A\<lparr>allocated := removeAll x (allocated A),
                   free := coalesce (plen (span (cfg A))) x (free A)\<rparr>"
    by (auto simp: Release_def split: if_splits)
  from assms(1) have "\<forall>y \<in> set (free A). plen (span (cfg A)) < plen y \<longrightarrow> buddy y \<notin> set (free A)"
    by (simp add: coalesced_def list_all_iff)
  from coalesce_coalesced [OF this, of x] show ?thesis
    by (simp add: coalesced_def list_all_iff A')
qed

lemma Reserve_coalesced:
  assumes "sound A" "coalesced A" "p \<le> 32" "Reserve p A = Inr (r, A')"
  shows "coalesced A'"
proof -
  from assms(4) obtain c sibs where bf: "best_fit p (free A) = Some c"
    and sp: "split_block c p = (r, sibs)"
    and A': "A' = A\<lparr>free := sibs @ removeAll c (free A), allocated := allocated A @ [r]\<rparr>"
    by (rule Reserve_cases)
  let ?F = "free A" and ?lvl = "plen (span (cfg A))"
  let ?sib = "\<lambda>j. Block (base c + block_size j) j"
  from bf have c: "c \<in> set ?F" "plen c \<le> p" by (rule best_fit_mem)+
  from assms(1) have al: "\<forall>x \<in> set (?F @ allocated A). aligned x"
    and ap: "apart (set (?F @ allocated A))"
    by (simp_all add: sound_def no_overlap_iff list_all_iff)
  from al c have c_al: "aligned c" by simp
  from assms(2) have co: "\<forall>y \<in> set ?F. ?lvl < plen y \<longrightarrow> buddy y \<notin> set ?F"
    by (simp add: coalesced_def list_all_iff)
  from c(2) sp have sibs: "sibs = map ?sib [Suc (plen c) ..< Suc p]"
    by (simp add: split_block_eq)
  have set_sibs: "set sibs = ?sib ` {plen c <.. p}"
    unfolding sibs set_map set_upt by (rule arg_cong [where f = "\<lambda>S. ?sib ` S"]) auto
  text \<open>The lower part at level \<open>k\<close> is inside \<open>c\<close>, so it is not free.\<close>
  have lower_out: "Block (base c) k \<notin> set sibs \<union> (set ?F - {c})" if k: "plen c < k" "k \<le> p" for k
  proof -
    from k assms(3) have k32: "k \<le> 32" by simp
    have "Block (base c) k \<notin> set sibs"
    proof
      assume "Block (base c) k \<in> set sibs"
      then obtain j where "Block (base c) k = ?sib j"
        unfolding set_sibs by blast
      then have "block_size j = 0" by simp
      with block_size_pos [of j] show False by simp
    qed
    moreover have "Block (base c) k \<notin> set ?F - {c}"
    proof
      assume in_F: "Block (base c) k \<in> set ?F - {c}"
      have "rng (Block (base c) k) \<subseteq> rng c"
        using block_size_mono [of "plen c" k] k by (auto simp: rng_def)
      then have "overlaps (Block (base c) k) c" by (rule inside_overlaps)
      with in_F c(1) ap show False
        unfolding apart_def by auto
    qed
    ultimately show ?thesis by simp
  qed
  have upper_buddy: "buddy (?sib k) = Block (base c) k" if k: "plen c < k" "k \<le> p" for k
  proof -
    from k assms(3) have "k \<le> 32" by simp
    from lower_part_buddy(1) [OF c_al k(1) this]
    have "buddy (buddy (Block (base c) k)) = buddy (?sib k)" by simp
    then show ?thesis by simp
  qed
  have "\<forall>y \<in> set (sibs @ removeAll c ?F). ?lvl < plen y \<longrightarrow> buddy y \<notin> set (sibs @ removeAll c ?F)"
  proof (intro ballI impI)
    fix y
    assume y: "y \<in> set (sibs @ removeAll c ?F)" and l: "?lvl < plen y"
    then consider k where "y = ?sib k" "plen c < k" "k \<le> p" | "y \<in> set ?F - {c}"
      by (auto simp: set_sibs)
    then show "buddy y \<notin> set (sibs @ removeAll c ?F)"
    proof cases
      case (1 k)
      with upper_buddy [of k] lower_out [of k] show ?thesis by simp
    next
      case 2
      with co l have b1: "buddy y \<notin> set ?F - {c}" by blast
      have "buddy y \<notin> set sibs"
      proof
        assume "buddy y \<in> set sibs"
        then obtain k where k: "buddy y = ?sib k" "plen c < k" "k \<le> p"
          by (auto simp: set_sibs)
        then have "buddy (buddy y) = Block (base c) k"
          using upper_buddy [of k] by simp
        then have "y = Block (base c) k" by simp
        with 2 lower_out [of k] k show False by simp
      qed
      with b1 show ?thesis by simp
    qed
  qed
  then show ?thesis
    by (simp add: coalesced_def list_all_iff A')
qed

lemma fresh_allocator_tidy:
  "sound (fresh_allocator Primary)" "coalesced (fresh_allocator Primary)"
  "sound (fresh_allocator CGNAT)" "coalesced (fresh_allocator CGNAT)"
  by (simp_all add: sound_def coalesced_def fresh_allocator_def Primary_def CGNAT_def
        aligned_def block_size_def)

lemma Allocate_coalesced:
  assumes "sound P" "sound C" "coalesced P" "coalesced C"
    and "Allocate v req (P, C) = (res, (P', C'))"
  shows "coalesced P' \<and> coalesced C'"
proof (cases "SizingResolver req")
  case (Inl e)
  with assms show ?thesis by (auto simp: Allocate_def)
next
  case (Inr pc)
  obtain p c where pc: "pc = (p, c)" by (cases pc)
  with Inr have sz: "SizingResolver req = Inr (p, c)" by simp
  from SizingResolver_range [OF sz] have p32: "nat p \<le> 32" and c32: "nat c \<le> 32" by simp_all
  show ?thesis
  proof (cases "Reserve (nat p) P")
    case (Inl e)
    with assms sz show ?thesis by (auto simp: Allocate_def)
  next
    case (Inr r1)
    obtain pb P1 where r1: "r1 = (pb, P1)" by (cases r1)
    with Inr have rp: "Reserve (nat p) P = Inr (pb, P1)" by simp
    note cp = Reserve_coalesced [OF assms(1,3) p32 rp]
    show ?thesis
    proof (cases "Reserve (nat c) C")
      case (Inr r2)
      obtain cb C1 where r2: "r2 = (cb, C1)" by (cases r2)
      with Inr have rc: "Reserve (nat c) C = Inr (cb, C1)" by simp
      note cc = Reserve_coalesced [OF assms(2,4) c32 rc]
      from assms(5) sz rp rc have "P' = P1" "C' = C1"
        by (simp_all add: Allocate_def)
      with cp cc show ?thesis by simp
    next
      case (Inl e)
      show ?thesis
      proof (cases "Release pb P1")
        case (Inr P2)
        with assms(5) sz rp Inl have "P' = P2" "C' = C"
          by (simp_all add: Allocate_def)
        with Release_coalesced [OF cp Inr] assms(4) show ?thesis by simp
      next
        case rel: (Inl e')
        with assms(5) sz rp Inl have "P' = P1" "C' = C"
          by (simp_all add: Allocate_def)
        with cp assms(4) show ?thesis by simp
      qed
    qed
  qed
qed

lemma Create_tidy:
  assumes "tidy E" "Create v req E = Inr (r, E')"
  shows "tidy E'"
proof -
  obtain res P C where a: "Allocate v req (primary E, cgnat E) = (res, (P, C))"
    by (metis prod.exhaust)
  from assms(1) have i: "sound (primary E)" "sound (cgnat E)"
    "coalesced (primary E)" "coalesced (cgnat E)"
    by (simp_all add: tidy_def consistent_def)
  from assms(2) a have "primary E' = P" "cgnat E' = C"
    by (auto simp: Create_def Let_def split: sum.splits)
  with Allocate_coalesced [OF i a] Create_consistent [OF _ assms(2)] assms(1)
  show ?thesis by (simp add: tidy_def)
qed

lemma Delete_tidy:
  assumes "tidy E" "Delete i E = Inr E'"
  shows "tidy E'"
proof -
  from assms(2) obtain r P C where
    rp: "Release (primary_block r) (primary E) = Inr P"
    and rc: "Release (cgnat_block r) (cgnat E) = Inr C"
    and E': "E' = E\<lparr>primary := P, cgnat := C, rows := remove1 r (rows E)\<rparr>"
    by (auto simp: Delete_def Deallocate_def split: option.splits sum.splits)
  from assms(1) have "coalesced (primary E)" "coalesced (cgnat E)" "consistent E"
    by (simp_all add: tidy_def)
  with Release_coalesced [OF _ rp] Release_coalesced [OF _ rc] Delete_consistent [OF _ assms(2)]
  show ?thesis by (simp add: tidy_def E')
qed

lemma delete_each_tidy:
  "tidy E \<Longrightarrow> delete_each ids E = Inr E' \<Longrightarrow> tidy E'"
proof (induction ids arbitrary: E)
  case Nil
  then show ?case by simp
next
  case (Cons i ids)
  then obtain E1 where d: "Delete i E = Inr E1" and rest: "delete_each ids E1 = Inr E'"
    by (auto split: sum.splits)
  from Cons.prems(1) d have "tidy E1" by (rule Delete_tidy)
  then show ?case using rest by (rule Cons.IH)
qed

lemma perform_tidy: "tidy E \<Longrightarrow> tidy (perform op E)"
proof (cases op)
  case (DoCreate v req)
  assume "tidy E"
  then show ?thesis
    using Create_tidy [of E v req] DoCreate by (auto split: sum.splits)
next
  case (DoDelete i)
  assume "tidy E"
  then show ?thesis
    using Delete_tidy [of E i] DoDelete by (auto split: sum.splits)
next
  case (DoMove i v)
  assume t: "tidy E"
  show ?thesis
  proof (cases "Move i v E")
    case (Inl e)
    with t DoMove show ?thesis by simp
  next
    case (Inr E')
    then have "primary E' = primary E" "cgnat E' = cgnat E"
      by (auto simp: Move_def split: option.splits)
    with t Move_consistent [OF _ Inr] DoMove Inr show ?thesis
      by (simp add: tidy_def)
  qed
next
  case (DoDeleteVpc v)
  assume t: "tidy E"
  show ?thesis
  proof (cases "DeleteVpc v E")
    case (Inl e)
    with t DoDeleteVpc show ?thesis by simp
  next
    case (Inr nE)
    obtain n E' where nE: "nE = (n, E')" by (cases nE)
    with Inr obtain E1 where
      d: "delete_each (map row_id (filter (\<lambda>r. owner r = v) (rows E))) E = Inr E1"
      and E': "E' = E1\<lparr>vpcs := removeAll v (vpcs E1)\<rparr>"
      by (auto simp: DeleteVpc_def Let_def split: if_splits sum.splits)
    from t d have "tidy E1" by (rule delete_each_tidy)
    then have "tidy E'" by (simp add: tidy_def consistent_def E')
    with DoDeleteVpc Inr nE show ?thesis by simp
  qed
qed

text \<open>
  Every engine reached from the fresh one by the public operations has sound allocators
  with coalesced FreeSets, as the rollback property above asks of the primary allocator.
\<close>

lemma run_tidy: "tidy (run ops fresh_engine)"
proof -
  have "tidy fresh_engine"
    using consistent_fresh
    by (simp add: tidy_def coalesced_def fresh_engine_def fresh_allocator_def)
  moreover have "tidy E \<Longrightarrow> tidy (run ops E)" for E
    unfolding run_def by (induction ops arbitrary: E) (simp_all add: perform_tidy)
  ultimately show ?thesis by blast
qed

section \<open>Properties of the dashboard\<close>

subsection \<open>Numbers and their text\<close>

lemma floor_rat_numeral [simp]:
  "\<lfloor>(numeral a :: rat) / numeral b\<rfloor> = numeral a div numeral b"
  using floor_divide_of_int_eq [of "numeral a" "numeral b", where ?'a = rat] by simp

text \<open>The equations by which \<open>to_number\<close> and \<open>parseInt\<close> are evaluated on a given text.\<close>

lemmas number_text =
  to_number_def parseInt_def prefixed_def unsigned_decimal_def signed_integer_def
  exponent_split_def radix_val_def digit_val_def is_digit_def is_hex_digit_def is_oct_digit_def
  is_bin_digit_def trim_def js_whitespace_def pow10_def negate_def
  round_double_def round_pos_def pow2_def halvings.simps doublings.simps round_half_even_def
  Let_def


lemma round_half_even_int [simp]: "round_half_even (of_int k) = k"
  by (simp add: round_half_even_def)

lemma pow2_pos [simp]: "0 < pow2 k"
  by (simp add: pow2_def)

lemma pow2_nonzero [simp]: "pow2 k \<noteq> 0"
  by (simp add: pow2_def)



text \<open>\<open>show_nat\<close> writes the decimal digits of its argument.\<close>

lemma digit_char_props:
  assumes "d < 10"
  shows "is_digit (digit_char d)" "digit_val (digit_char d) = d"
  using assms by (simp_all add: digit_char_def is_digit_def digit_val_def Let_def)

lemma radix_val_snoc: "radix_val r (ds @ [c]) = r * radix_val r ds + digit_val c"
  by (simp add: radix_val_def)

lemma show_nat_decimal:
  "show_nat n \<noteq> [] \<and> list_all is_digit (show_nat n) \<and> radix_val 10 (show_nat n) = n"
proof (induction n rule: show_nat.induct)
  case (1 n)
  show ?case
  proof (cases "n < 10")
    case True
    then have "show_nat n = [digit_char n]"
      by (subst show_nat.simps) simp
    with True show ?thesis
      by (simp add: digit_char_props radix_val_def)
  next
    case False
    then have s: "show_nat n = show_nat (n div 10) @ [digit_char (n mod 10)]"
      by (subst show_nat.simps) simp
    have "n mod 10 < 10" by simp
    from "1.IH" [OF False] this show ?thesis
      by (simp add: s radix_val_snoc digit_char_props)
  qed
qed















subsection \<open>What the page functions leave alone\<close>

lemma setStatus_fields [simp]:
  "fetched (setStatus m t w) = fetched w"
  "confirm_log (setStatus m t w) = confirm_log w"
  "allocations (setStatus m t w) = allocations w"
  "status_log (setStatus m t w) = status_log w @ [(m, t)]"
  by (simp_all add: setStatus_def)

lemma showLoading_fields [simp]:
  "fetched (showLoading b w) = fetched w"
  "confirm_log (showLoading b w) = confirm_log w"
  "status_log (showLoading False w) = status_log w"
  "status_log (showLoading True w) = status_log w @ [(''Loading...'', ''loading'')]"
  by (simp_all add: showLoading_def)

lemma showCreateLoading_fields [simp]:
  "fetched (showCreateLoading b w) = fetched w"
  by (simp_all add: showCreateLoading_def)

lemma toggleAllocationForm_fields [simp]:
  "fetched (toggleAllocationForm w) = fetched w"
  by (simp_all add: toggleAllocationForm_def setAllocationMode_def Let_def)

lemma renderAllocations_fields [simp]:
  "fetched (renderAllocations w) = fetched w"
  "confirm_log (renderAllocations w) = confirm_log w"
  "status_log (renderAllocations w) = status_log w"
  by (simp_all add: renderAllocations_def)

lemma load_failed_fields [simp]:
  "fetched (load_failed m w) = fetched w"
  "confirm_log (load_failed m w) = confirm_log w"
  "status_log (load_failed m w) = status_log w @ [(''Error: '' @ m, ''error'')]"
  by (simp_all add: load_failed_def)

lemma report_error_fields [simp]:
  "fetched (report_error e w) = fetched w"
  "confirm_log (report_error e w) = confirm_log w"
  by (simp_all add: report_error_def)

lemma fetch_fields [simp]:
  "fetched (snd (fetch r w)) = fetched w @ [r]"
  "confirm_log (snd (fetch r w)) = confirm_log w"
  "status_log (snd (fetch r w)) = status_log w"
  "allocations (snd (fetch r w)) = allocations w"
  by (simp_all add: fetch_def Let_def)

lemma Auth_ensure_fields [simp]:
  "fetched (snd (Auth_ensure w)) = fetched w"
  "confirm_log (snd (Auth_ensure w)) = confirm_log w"
  "status_log (snd (Auth_ensure w)) = status_log w"
  "allocations (snd (Auth_ensure w)) = allocations w"
  by (auto simp: Auth_ensure_def Auth_set_def Auth_clear_def prompt_def
           split: option.splits list.splits prod.splits)

lemma api_cases:
  obtains (refused) e w1 where "api input ini w = (Inl e, w1)" "Auth_ensure w = (Inl e, w1)"
  | (thrown) key e w1 where "Auth_ensure w = (Inr key, w1)"
      "api_request input ini key w1 = Inl e" "api input ini w = (Inl e, w1)"
  | (sent) key req w1 where "Auth_ensure w = (Inr key, w1)"
      "api_request input ini key w1 = Inr req" "api input ini w = fetch req w1"
proof (cases "Auth_ensure w")
  case (Pair r w1)
  show ?thesis
  proof (cases r)
    case (Inl e)
    with Pair refused show ?thesis by (simp add: api_def)
  next
    case (Inr key)
    show ?thesis
    proof (cases "api_request input ini key w1")
      case (Inl e)
      with Pair \<open>r = Inr key\<close> thrown show ?thesis by (simp add: api_def)
    next
      case (Inr req)
      with Pair \<open>r = Inr key\<close> sent show ?thesis by (simp add: api_def)
    qed
  qed
qed

lemma api_request_fields:
  assumes "api_request input ini key w = Inr req"
  shows "url req = input" "meth req = i_method ini" "body req = i_body ini"
  using assms by (auto simp: api_request_def split: option.splits if_splits)

text \<open>
  An \<open>api\<close> call passes at most one request to \<open>fetch\<close>: none when \<open>ensure\<close> or \<open>Headers\<close>
  throws, else the request built from the key that \<open>ensure\<close> returned.
\<close>

lemma api_sent_request:
  "sent_between w (snd (api input ini w)) = []
   \<or> (\<exists>key w1 req. Auth_ensure w = (Inr key, w1) \<and> api_request input ini key w1 = Inr req
         \<and> sent_between w (snd (api input ini w)) = [req])"
proof (cases input ini w rule: api_cases)
  case (refused e w1)
  then have "fetched (snd (api input ini w)) = fetched w"
    using Auth_ensure_fields(1) [of w] by simp
  then show ?thesis by (simp add: sent_between_def)
next
  case (thrown key e w1)
  then have "fetched (snd (api input ini w)) = fetched w"
    using Auth_ensure_fields(1) [of w] by simp
  then show ?thesis by (simp add: sent_between_def)
next
  case (sent key req w1)
  then have "fetched w1 = fetched w"
    using Auth_ensure_fields(1) [of w] by simp
  with sent have "sent_between w (snd (api input ini w)) = [req]"
    by (simp add: sent_between_def)
  with sent show ?thesis by blast
qed

lemma api_fetched: "fetched (snd (api input ini w)) = fetched w @ sent_between w (snd (api input ini w))"
proof (cases input ini w rule: api_cases)
  case (refused e w1)
  then show ?thesis
    using Auth_ensure_fields(1) [of w] by (simp add: sent_between_def)
next
  case (thrown key e w1)
  then show ?thesis
    using Auth_ensure_fields(1) [of w] by (simp add: sent_between_def)
next
  case (sent key req w1)
  then show ?thesis
    using Auth_ensure_fields(1) [of w] by (simp add: sent_between_def)
qed

lemma api_sent:
  "\<exists>rs. fetched (snd (api input ini w)) = fetched w @ rs
        \<and> (\<forall>r \<in> set rs. url r = input \<and> body r = i_body ini)"
proof -
  let ?rs = "sent_between w (snd (api input ini w))"
  have "\<forall>r \<in> set ?rs. url r = input \<and> body r = i_body ini"
    using api_sent_request [of w input ini] by (auto dest: api_request_fields)
  with api_fetched [of input ini w] show ?thesis by blast
qed

lemma api_fields [simp]:
  "confirm_log (snd (api input ini w)) = confirm_log w"
  "status_log (snd (api input ini w)) = status_log w"
  "allocations (snd (api input ini w)) = allocations w"
proof -
  show "confirm_log (snd (api input ini w)) = confirm_log w"
    using Auth_ensure_fields(2) [of w] by (cases input ini w rule: api_cases) auto
  show "status_log (snd (api input ini w)) = status_log w"
    using Auth_ensure_fields(3) [of w] by (cases input ini w rule: api_cases) auto
  show "allocations (snd (api input ini w)) = allocations w"
    using Auth_ensure_fields(4) [of w] by (cases input ini w rule: api_cases) auto
qed

lemma load_settled_fields [simp]:
  "fetched (load_settled r w) = fetched w"
  "confirm_log (load_settled r w) = confirm_log w"
  by (simp_all add: load_settled_def Let_def split: sum.splits json_body.splits)

lemma load_settled_status_log:
  "\<exists>rest. status_log (load_settled r w) = status_log w @ rest"
  by (simp add: load_settled_def Let_def split: sum.splits json_body.splits)

lemma loadAllocations_unfold:
  "loadAllocations w =
     showLoading False
       (load_settled
          (fst (api ''/allocations'' \<lparr>i_method = None, i_headers = None, i_body = None\<rparr>
                  (showLoading True w)))
          (snd (api ''/allocations'' \<lparr>i_method = None, i_headers = None, i_body = None\<rparr>
                  (showLoading True w))))"
  by (simp add: loadAllocations_def Let_def case_prod_beta)

lemma loadAllocations_sent:
  "\<exists>rs. fetched (loadAllocations w) = fetched w @ rs
        \<and> (\<forall>r \<in> set rs. url r = ''/allocations'' \<and> body r = None)"
  using api_sent [of "''/allocations''" "\<lparr>i_method = None, i_headers = None, i_body = None\<rparr>"
      "showLoading True w"]
  by (auto simp: loadAllocations_unfold)

lemma loadAllocations_confirm_log [simp]:
  "confirm_log (loadAllocations w) = confirm_log w"
  by (simp add: loadAllocations_unfold)

lemma loadAllocations_status_log:
  "\<exists>rest. status_log (loadAllocations w) = status_log w @ rest"
proof -
  let ?a = "api ''/allocations'' \<lparr>i_method = None, i_headers = None, i_body = None\<rparr>
              (showLoading True w)"
  obtain rest where "status_log (load_settled (fst ?a) (snd ?a)) = status_log (snd ?a) @ rest"
    using load_settled_status_log by blast
  then have "status_log (loadAllocations w) = status_log w @ (''Loading...'', ''loading'') # rest"
    by (simp add: loadAllocations_unfold)
  then show ?thesis by blast
qed

subsection \<open>Moving an allocation\<close>

text \<open>
  C9: \<open>editAllocationVpc\<close> issues no Move request and changes no client state whenever the
  prompt is cancelled, the entered name is empty or white space only, or the trimmed name
  equals the allocation's current VPC name: all that happened is the prompt itself.
\<close>

theorem C9_edit_no_move:
  assumes "fst (prompt ''Move this allocation to which VPC?'' w) = None
           \<or> (\<exists>n. fst (prompt ''Move this allocation to which VPC?'' w) = Some n
                  \<and> (n = [] \<or> trim n = [] \<or> trim n = currentVpc))"
  shows "editAllocationVpc allocationId currentVpc w
           = snd (prompt ''Move this allocation to which VPC?'' w)
         \<and> sent_between w (editAllocationVpc allocationId currentVpc w) = []
         \<and> status_log (editAllocationVpc allocationId currentVpc w) = status_log w
         \<and> allocations (editAllocationVpc allocationId currentVpc w) = allocations w
         \<and> storage (editAllocationVpc allocationId currentVpc w) = storage w"
proof -
  obtain a w1 where p: "prompt ''Move this allocation to which VPC?'' w = (a, w1)"
    by (cases "prompt ''Move this allocation to which VPC?'' w")
  with assms have a: "a = None \<or> (\<exists>n. a = Some n \<and> (n = [] \<or> trim n = [] \<or> trim n = currentVpc))"
    by simp
  have same: "fetched w1 = fetched w" "status_log w1 = status_log w"
    "allocations w1 = allocations w" "storage w1 = storage w"
    using p by (auto simp: prompt_def split: list.splits)
  have "editAllocationVpc allocationId currentVpc w = w1"
    using a p by (auto simp: editAllocationVpc_def)
  with same p show ?thesis by (simp add: sent_between_def)
qed

theorem C9_edit_no_move_witness:
  "fst (prompt ''Move this allocation to which VPC?'' move_world) = Some '' prod  ''
   \<and> trim '' prod  '' = ''prod''
   \<and> sent_between move_world (editAllocationVpc 7 ''prod'' move_world) = []
   \<and> status_log (editAllocationVpc 7 ''prod'' move_world) = []"
proof -
  have p: "fst (prompt ''Move this allocation to which VPC?'' move_world) = Some '' prod  ''"
    by (simp add: move_world_def fresh_page_def prompt_def)
  have t: "trim '' prod  '' = ''prod''"
    by (simp add: trim_def js_whitespace_def)
  have s: "status_log move_world = []"
    by (simp add: move_world_def fresh_page_def)
  from p t have "fst (prompt ''Move this allocation to which VPC?'' move_world) = None
           \<or> (\<exists>n. fst (prompt ''Move this allocation to which VPC?'' move_world) = Some n
                  \<and> (n = [] \<or> trim n = [] \<or> trim n = ''prod''))"
    by simp
  from C9_edit_no_move [OF this, of 7]
  have "sent_between move_world (editAllocationVpc 7 ''prod'' move_world) = []"
    and "status_log (editAllocationVpc 7 ''prod'' move_world) = status_log move_world"
    by blast+
  with p t s show ?thesis by simp
qed

subsection \<open>Deleting a VPC\<close>

lemma confirm_fields [simp]:
  "fetched (snd (confirm q w)) = fetched w"
  "status_log (snd (confirm q w)) = status_log w"
  "allocations (snd (confirm q w)) = allocations w"
  "confirm_log (snd (confirm q w)) = confirm_log w @ [q]"
  by (simp_all add: confirm_def split: list.splits)

lemma confirm_answer: "fst (confirm q w) = (confirms w \<noteq> [] \<and> hd (confirms w))"
  by (simp add: confirm_def split: list.splits)

lemma change_settled_confirm_log [simp]:
  "confirm_log (change_settled fallback success r w) = confirm_log w"
  by (simp add: change_settled_def split: sum.splits)

text \<open>The quotation mark and the line feed of the messages, as characters.\<close>

lemma dq_char: "dq = [CHR 0x22]"
  by (simp add: dq_def) code_simp

lemma line_feed_char: "char_of (10::nat) = CHR 0x0A"
  by code_simp

lemma deleteVpc_unfold:
  "deleteVpc vpcName w =
     (let n = length (filter (\<lambda>a. vpc a = vpcName) (allocations w));
          q = ''Are you sure you want to delete VPC '' @ [CHR 0x22] @ vpcName @ [CHR 0x22]
              @ ''?'' @ [CHR 0x0A, CHR 0x0A] @ ''This will delete '' @ show_nat n
              @ '' allocation(s) for this VPC. This action cannot be undone.'';
          w1 = snd (confirm q w);
          a = api (''/vpcs/'' @ encodeURIComponent vpcName)
                \<lparr>i_method = Some ''DELETE'', i_headers = None, i_body = None\<rparr>
                (setStatus ''Deleting VPC...'' ''loading'' w1)
      in if fst (confirm q w)
         then change_settled ''Failed to delete VPC''
                (''VPC '' @ [CHR 0x22] @ vpcName @ [CHR 0x22] @ '' and '' @ show_nat n
                 @ '' allocation(s) deleted'')
                (fst a) (snd a)
         else w1)"
proof -
  let ?n = "length (filter (\<lambda>a. vpc a = vpcName) (allocations w))"
  let ?q = "''Are you sure you want to delete VPC '' @ [CHR 0x22] @ vpcName @ [CHR 0x22]
              @ ''?'' @ [CHR 0x0A, CHR 0x0A] @ ''This will delete '' @ show_nat ?n
              @ '' allocation(s) for this VPC. This action cannot be undone.''"
  show ?thesis
    unfolding deleteVpc_def dq_char line_feed_char
    by (cases "confirm ?q w") (simp add: Let_def case_prod_beta split: bool.splits)
qed

text \<open>
  C10: the allocation count that \<open>deleteVpc\<close> shows is \<open>n\<close>, the number of entries with that
  VPC name in the cached \<open>allocations\<close> list. The confirmation dialog asks
  \<open>Are you sure you want to delete VPC "name"?\<close>, a blank line, and
  \<open>This will delete n allocation(s) for this VPC. This action cannot be undone.\<close>, where
  \<open>n\<close> is written in decimal digits. When the user confirms and the response is ok,
  whatever its body, the status line set after \<open>Deleting VPC...\<close> is
  \<open>VPC "name" and n allocation(s) deleted\<close> with the same \<open>n\<close>: the \<open>deleted_count\<close> of the
  response is never read, so the count shown can differ from the number deleted.
\<close>

theorem C10_deleteVpc_count_from_cache:
  fixes w :: world and vpcName :: string
  defines "n \<equiv> length (filter (\<lambda>a. vpc a = vpcName) (allocations w))"
  defines "question \<equiv>
             ''Are you sure you want to delete VPC '' @ [CHR 0x22] @ vpcName @ [CHR 0x22]
             @ ''?'' @ [CHR 0x0A, CHR 0x0A] @ ''This will delete '' @ show_nat n
             @ '' allocation(s) for this VPC. This action cannot be undone.''"
  defines "success \<equiv>
             ''VPC '' @ [CHR 0x22] @ vpcName @ [CHR 0x22] @ '' and '' @ show_nat n
             @ '' allocation(s) deleted''"
  shows "confirm_log (deleteVpc vpcName w) = confirm_log w @ [question]
         \<and> show_nat n \<noteq> [] \<and> list_all is_digit (show_nat n) \<and> radix_val 10 (show_nat n) = n
         \<and> (\<forall>w1 w3 resp.
               confirm question w = (True, w1)
               \<and> api (''/vpcs/'' @ encodeURIComponent vpcName)
                     \<lparr>i_method = Some ''DELETE'', i_headers = None, i_body = None\<rparr>
                     (setStatus ''Deleting VPC...'' ''loading'' w1) = (Inr resp, w3)
               \<and> ok resp
               \<longrightarrow> (\<exists>rest. status_log (deleteVpc vpcName w)
                             = status_log w
                               @ [(''Deleting VPC...'', ''loading''), (success, ''success'')]
                               @ rest))"
proof (intro conjI allI impI)
  show "confirm_log (deleteVpc vpcName w) = confirm_log w @ [question]"
    by (simp add: deleteVpc_unfold n_def question_def Let_def)
  show "show_nat n \<noteq> []" "list_all is_digit (show_nat n)" "radix_val 10 (show_nat n) = n"
    using show_nat_decimal [of n] by blast+
  fix w1 w3 resp
  let ?w2 = "setStatus ''Deleting VPC...'' ''loading'' w1"
  let ?u = "''/vpcs/'' @ encodeURIComponent vpcName"
  let ?ini = "\<lparr>i_method = Some ''DELETE'', i_headers = None, i_body = None\<rparr>"
  assume h: "confirm question w = (True, w1) \<and> api ?u ?ini ?w2 = (Inr resp, w3) \<and> ok resp"
  then have c: "confirm question w = (True, w1)"
    and a: "api ?u ?ini ?w2 = (Inr resp, w3)" and okr: "ok resp"
    by blast+
  have "status_log (snd (confirm question w)) = status_log w"
    by (rule confirm_fields)
  then have "status_log w1 = status_log w"
    unfolding c by simp
  moreover have "status_log (snd (api ?u ?ini ?w2)) = status_log ?w2"
    by (rule api_fields)
  then have "status_log w3 = status_log ?w2"
    unfolding a by simp
  ultimately have s3: "status_log w3 = status_log w @ [(''Deleting VPC...'', ''loading'')]"
    by simp
  have "deleteVpc vpcName w =
          change_settled ''Failed to delete VPC'' success
            (fst (api ?u ?ini (setStatus ''Deleting VPC...'' ''loading'' (snd (confirm question w)))))
            (snd (api ?u ?ini (setStatus ''Deleting VPC...'' ''loading'' (snd (confirm question w)))))"
    using c unfolding deleteVpc_unfold [of vpcName w] n_def question_def success_def Let_def
    by simp
  then have d: "deleteVpc vpcName w = loadAllocations (setStatus success ''success'' w3)"
    unfolding c using a okr by (simp add: change_settled_def)
  obtain rest where
    "status_log (loadAllocations (setStatus success ''success'' w3))
       = status_log (setStatus success ''success'' w3) @ rest"
    using loadAllocations_status_log by blast
  with d s3 show "\<exists>rest. status_log (deleteVpc vpcName w)
                     = status_log w @ [(''Deleting VPC...'', ''loading''), (success, ''success'')]
                       @ rest"
    by simp
qed

theorem C10_deleteVpc_count_from_cache_witness:
  "length (filter (\<lambda>a. vpc a = ''prod'') (allocations stale_cache)) = 1
   \<and> server stale_cache [] = Resolved \<lparr>status = 200, statusText = ''OK'', json = DeletedJson 3\<rparr>
   \<and> confirm_log (deleteVpc ''prod'' stale_cache)
       = [''Are you sure you want to delete VPC '' @ [CHR 0x22] @ ''prod'' @ [CHR 0x22] @ ''?''
          @ [CHR 0x0A, CHR 0x0A]
          @ ''This will delete 1 allocation(s) for this VPC. This action cannot be undone.'']
   \<and> (\<exists>rest. status_log (deleteVpc ''prod'' stale_cache)
                = [(''Deleting VPC...'', ''loading''),
                   (''VPC '' @ [CHR 0x22] @ ''prod'' @ [CHR 0x22] @ '' and 1 allocation(s) deleted'',
                    ''success'')]
                  @ rest)"
proof -
  let ?q = "''Are you sure you want to delete VPC '' @ [CHR 0x22] @ ''prod'' @ [CHR 0x22] @ ''?''
          @ [CHR 0x0A, CHR 0x0A] @ ''This will delete '' @ ''1''
          @ '' allocation(s) for this VPC. This action cannot be undone.''"
  let ?w1 = "snd (confirm ?q stale_cache)"
  let ?a = "api (''/vpcs/'' @ encodeURIComponent ''prod'')
              \<lparr>i_method = Some ''DELETE'', i_headers = None, i_body = None\<rparr>
              (setStatus ''Deleting VPC...'' ''loading'' ?w1)"
  let ?resp = "\<lparr>status = 200, statusText = ''OK'', json = DeletedJson 3\<rparr>"
  have n: "length (filter (\<lambda>a. vpc a = ''prod'') (allocations stale_cache)) = 1"
    by (simp add: stale_cache_def fresh_page_def)
  have one: "show_nat 1 = ''1''"
    by code_simp
  have srv: "server stale_cache [] = Resolved ?resp"
    by (simp add: stale_cache_def fresh_page_def)
  have s0: "status_log stale_cache = []" "confirm_log stale_cache = []"
    by (simp_all add: stale_cache_def fresh_page_def)
  have c: "confirm ?q stale_cache = (True, ?w1)"
    by (simp add: confirm_def stale_cache_def fresh_page_def)
  have "fst ?a = Inr ?resp"
    by code_simp
  then have a: "?a = (Inr ?resp, snd ?a)"
    by (metis prod.collapse)
  have okr: "ok ?resp"
    by (simp add: ok_def)
  note C = C10_deleteVpc_count_from_cache [of "''prod''" stale_cache, unfolded n one s0]
  from C have 1: "confirm_log (deleteVpc ''prod'' stale_cache) = [] @ [?q]"
    by blast
  from C c a okr
  have 2: "\<exists>rest. status_log (deleteVpc ''prod'' stale_cache)
                = [] @ [(''Deleting VPC...'', ''loading''),
                   (''VPC '' @ [CHR 0x22] @ ''prod'' @ [CHR 0x22] @ '' and '' @ ''1''
                    @ '' allocation(s) deleted'', ''success'')]
                  @ rest"
    by blast
  from n srv 1 2 show ?thesis by simp
qed

subsection \<open>Creating an allocation\<close>

lemma create_settled_sent:
  "\<exists>rs. fetched (create_settled r w) = fetched w @ rs
        \<and> (\<forall>q \<in> set rs. url q = ''/allocations'' \<and> body q = None)"
proof -
  let ?w1 = "toggleAllocationForm (setStatus ''Allocation created successfully!'' ''success'' w)"
  have "fetched (create_settled r w) = fetched w
        \<or> fetched (create_settled r w) = fetched (loadAllocations ?w1)"
    by (simp add: create_settled_def Let_def split: sum.splits json_body.splits)
  moreover have "\<exists>rs. fetched (loadAllocations ?w1) = fetched w @ rs
        \<and> (\<forall>q \<in> set rs. url q = ''/allocations'' \<and> body q = None)"
    using loadAllocations_sent [of ?w1] by simp
  ultimately show ?thesis by auto
qed

lemma create_submit_sent:
  "\<exists>rs. fetched (create_submit w) = fetched w @ rs
        \<and> (\<forall>q \<in> set rs. (url q = ''/allocate'' \<and> body q = Some (create_payload w))
                         \<or> (url q = ''/allocations'' \<and> body q = None))"
proof -
  let ?ini = "\<lparr>i_method = Some ''POST'', i_headers = Some json_headers,
                i_body = Some (create_payload w)\<rparr>"
  let ?w1 = "setStatus ''Creating allocation...'' ''loading'' (showCreateLoading True w)"
  let ?a = "api ''/allocate'' ?ini ?w1"
  obtain rs where rs: "fetched (snd ?a) = fetched w @ rs"
      "\<forall>q \<in> set rs. url q = ''/allocate'' \<and> body q = Some (create_payload w)"
    using api_sent [of "''/allocate''" ?ini ?w1] by auto
  obtain rs' where rs': "fetched (create_settled (fst ?a) (snd ?a)) = fetched (snd ?a) @ rs'"
      "\<forall>q \<in> set rs'. url q = ''/allocations'' \<and> body q = None"
    using create_settled_sent by blast
  have "fetched (create_submit w) = fetched (create_settled (fst ?a) (snd ?a))"
    by (simp add: create_submit_def Let_def case_prod_beta)
  with rs rs' have "fetched (create_submit w) = fetched w @ (rs @ rs')"
    by simp
  moreover from rs rs' have "\<forall>q \<in> set (rs @ rs').
       (url q = ''/allocate'' \<and> body q = Some (create_payload w))
       \<or> (url q = ''/allocations'' \<and> body q = None)"
    by auto
  ultimately show ?thesis by blast
qed

lemma create_check_vpc: "create_check w = None \<Longrightarrow> trim (vpc_name_field w) \<noteq> []"
  by (auto simp: create_check_def Let_def split: if_splits)

lemma createAllocation_refused:
  "create_check w = Some e \<Longrightarrow> fetched (createAllocation w) = fetched w"
  by (cases e) (simp add: createAllocation_def)

text \<open>
  C6: every create payload the dashboard submits holds the trimmed, non-empty VPC name and
  exactly one more field: \<open>hosts\<close> when the allocation mode is \<open>'hosts'\<close>, \<open>prefix_length\<close>
  otherwise. The only other request \<open>createAllocation\<close> sends is the reload of the list.
\<close>

theorem C6_create_payload_shape:
  "(\<forall>q \<in> set (sent_between w (createAllocation w)).
       (url q = ''/allocate'' \<and> body q = Some (create_payload w)
        \<and> trim (vpc_name_field w) \<noteq> [])
       \<or> (url q = ''/allocations'' \<and> body q = None))
   \<and> map fst (create_payload w)
       = [''vpc'', if allocationMode w = ''hosts'' then ''hosts'' else ''prefix_length'']
   \<and> map_of (create_payload w) ''vpc'' = Some (JStr (trim (vpc_name_field w)))"
proof (intro conjI)
  show "\<forall>q \<in> set (sent_between w (createAllocation w)).
       (url q = ''/allocate'' \<and> body q = Some (create_payload w)
        \<and> trim (vpc_name_field w) \<noteq> [])
       \<or> (url q = ''/allocations'' \<and> body q = None)"
  proof (cases "create_check w")
    case (Some e)
    then show ?thesis
      by (simp add: sent_between_def createAllocation_refused)
  next
    case None
    obtain rs where rs: "fetched (create_submit w) = fetched w @ rs"
        "\<forall>q \<in> set rs. (url q = ''/allocate'' \<and> body q = Some (create_payload w))
                         \<or> (url q = ''/allocations'' \<and> body q = None)"
      using create_submit_sent by blast
    from None have "createAllocation w = create_submit w"
      by (simp add: createAllocation_def)
    with rs have "sent_between w (createAllocation w) = rs"
      by (simp add: sent_between_def)
    with rs(2) create_check_vpc [OF None] show ?thesis by auto
  qed
next
  show "map fst (create_payload w)
       = [''vpc'', if allocationMode w = ''hosts'' then ''hosts'' else ''prefix_length'']"
    by (simp add: create_payload_def Let_def)
next
  show "map_of (create_payload w) ''vpc'' = Some (JStr (trim (vpc_name_field w)))"
    by (simp add: create_payload_def Let_def)
qed

theorem C6_create_payload_shape_witness:
  "sent_between create_page (createAllocation create_page)
     = [\<lparr>url = ''/allocate'', meth = Some ''POST'',
         hdrs = [(''content-type'', ''application/json''), (''x-api-key'', ''k''),
                 (''x-request-id'', ''req-0'')],
         body = Some [(''vpc'', JStr ''prod''), (''hosts'', JNum (Num 100))]\<rparr>]
   \<and> create_payload prefix_page = [(''vpc'', JStr ''prod''), (''prefix_length'', JNum (Num 24))]
   \<and> map fst (create_payload create_page) = [''vpc'', ''hosts'']"
proof -
  have cp: "create_payload create_page = [(''vpc'', JStr ''prod''), (''hosts'', JNum (Num 100))]"
    by (simp add: create_payload_def create_page_def fresh_page_def number_text)
  have cc: "create_check create_page = None"
    by (simp add: create_check_def create_page_def fresh_page_def number_text js_gt_def)
  have 1: "sent_between create_page (createAllocation create_page)
     = [\<lparr>url = ''/allocate'', meth = Some ''POST'',
         hdrs = [(''content-type'', ''application/json''), (''x-api-key'', ''k''),
                 (''x-request-id'', ''req-0'')],
         body = Some [(''vpc'', JStr ''prod''), (''hosts'', JNum (Num 100))]\<rparr>]"
    unfolding createAllocation_def cc option.case create_submit_def cp by code_simp
  have 2: "create_payload prefix_page = [(''vpc'', JStr ''prod''), (''prefix_length'', JNum (Num 24))]"
    by (simp add: create_payload_def prefix_page_def create_page_def fresh_page_def number_text)
  have 3: "allocationMode create_page = ''hosts''"
    by (simp add: create_page_def fresh_page_def)
  from C6_create_payload_shape [of create_page] 3
  have "map fst (create_payload create_page) = [''vpc'', ''hosts'']"
    by simp
  with 1 2 show ?thesis by simp
qed

subsection \<open>The host-count check\<close>






subsection \<open>auth.js: the headers of a request\<close>

lemma header_names:
  "header_name ''X-API-Key''" "header_name REQ_ID" "lower REQ_ID \<noteq> lower ''X-API-Key''"
  "lower ''X-API-Key'' = ''x-api-key''" "lower REQ_ID = ''x-request-id''"
  by code_simp+

lemma headers_set_fresh:
  assumes "\<not> has hs n" "header_name n"
  shows "headers_set hs n v =
           (if header_value (normalize_value v) then Some (hs @ [(lower n, normalize_value v)])
            else None)"
  using assms by (simp add: headers_set_def Let_def)

lemma has_append: "has (hs @ [(k, v)]) m \<longleftrightarrow> has hs m \<or> lower m = k"
  by (auto simp: has_def)

lemma headers_get_present: "headers_get hs n \<noteq> None \<longleftrightarrow> has hs n"
proof -
  have "filter (\<lambda>(k, _). k = lower n) hs = [] \<longleftrightarrow> lower n \<notin> fst ` set hs"
    by (force simp: filter_empty_conv)
  then show ?thesis
    by (auto simp: headers_get_def has_def split: list.splits)
qed

lemma headers_get_append_other:
  "lower m \<noteq> k \<Longrightarrow> headers_get (hs @ [(k, v)]) m = headers_get hs m"
  by (simp add: headers_get_def)

lemma headers_get_append_new:
  assumes "\<not> has hs n"
  shows "headers_get (hs @ [(lower n, v)]) n = Some v"
proof -
  from assms have "filter (\<lambda>(k, _). k = lower n) hs = []"
    by (force simp: has_def filter_empty_conv)
  then show ?thesis by (simp add: headers_get_def)
qed

text \<open>
  The request \<open>api\<close> builds: each of the two headers is the caller's when the caller
  supplied one, else the normalised key and request id; every other header is the
  caller's.
\<close>

lemma api_request_headers:
  assumes "api_request input ini key w = Inr req"
  shows "\<exists>h0. caller_headers ini = Some h0
           \<and> headers_get (hdrs req) ''X-API-Key''
               = (if has h0 ''X-API-Key'' then headers_get h0 ''X-API-Key''
                  else Some (normalize_value key))
           \<and> headers_get (hdrs req) ''X-Request-Id''
               = (if has h0 ''X-Request-Id'' then headers_get h0 ''X-Request-Id''
                  else Some (normalize_value (newReqId w)))
           \<and> (\<forall>n. lower n \<noteq> ''x-api-key'' \<and> lower n \<noteq> ''x-request-id''
                  \<longrightarrow> headers_get (hdrs req) n = headers_get h0 n)"
proof -
  from assms obtain h0 where h0: "caller_headers ini = Some h0"
    by (cases "caller_headers ini") (simp_all add: api_request_def)
  define o1 where "o1 = (if \<not> has h0 ''X-API-Key'' then headers_set h0 ''X-API-Key'' key else Some h0)"
  from assms h0 obtain h1 where h1: "o1 = Some h1"
    by (cases o1) (simp_all add: api_request_def o1_def)
  define o2 where "o2 = (if \<not> has h1 REQ_ID then headers_set h1 REQ_ID (newReqId w) else Some h1)"
  from assms h0 h1 obtain h2 where h2: "o2 = Some h2"
    by (cases o2) (simp_all add: api_request_def o1_def [symmetric] o2_def)
  from assms h0 h1 h2 have req: "hdrs req = h2"
    by (auto simp: api_request_def o1_def [symmetric] o2_def [symmetric])
  have e1: "h1 = (if has h0 ''X-API-Key'' then h0
                  else h0 @ [(lower ''X-API-Key'', normalize_value key)])"
    using h1 by (auto simp: o1_def headers_set_fresh header_names(1) split: if_splits)
  have e2: "h2 = (if has h1 REQ_ID then h1
                  else h1 @ [(lower REQ_ID, normalize_value (newReqId w))])"
    using h2 by (auto simp: o2_def headers_set_fresh header_names(2) split: if_splits)
  have k2: "headers_get h2 ''X-API-Key'' = headers_get h1 ''X-API-Key''"
    using header_names(3) by (simp add: e2 headers_get_append_other)
  have k1: "headers_get h1 ''X-API-Key''
              = (if has h0 ''X-API-Key'' then headers_get h0 ''X-API-Key''
                 else Some (normalize_value key))"
    by (simp add: e1 headers_get_append_new)
  have r1: "has h1 REQ_ID \<longleftrightarrow> has h0 REQ_ID"
    using header_names(3) by (auto simp: e1 has_append)
  have g1: "headers_get h1 REQ_ID = headers_get h0 REQ_ID"
    using header_names(3) [symmetric] by (simp add: e1 headers_get_append_other)
  have r2: "headers_get h2 REQ_ID
              = (if has h0 REQ_ID then headers_get h0 REQ_ID
                 else Some (normalize_value (newReqId w)))"
    using r1 g1 by (simp add: e2 headers_get_append_new)
  have other: "headers_get h2 n = headers_get h0 n"
    if "lower n \<noteq> ''x-api-key'' \<and> lower n \<noteq> ''x-request-id''" for n
    using that by (simp add: e1 e2 headers_get_append_other header_names(4,5))
  from h0 k1 k2 r2 other show ?thesis
    by (simp add: req REQ_ID_def)
qed

text \<open>What \<open>ensure\<close> returns is the stored key, or the key typed at the prompt.\<close>

lemma Auth_ensure_key:
  assumes "Auth_ensure w = (Inr key, w1)"
  shows "key \<noteq> []"
    and "storage w = Some key
         \<or> ((storage w = None \<or> storage w = Some [])
            \<and> fst (prompt ''Enter API key'' w) = Some key)"
    and "storage w1 = Some key"
  using assms
  by (auto simp: Auth_ensure_def Auth_get_def Auth_set_def prompt_def
           split: option.splits if_splits list.splits)

lemma Auth_ensure_newReqId: "newReqId (snd (Auth_ensure w)) = newReqId w"
  by (auto simp: Auth_ensure_def Auth_get_def Auth_set_def prompt_def newReqId_def
           split: option.splits if_splits list.splits)

text \<open>The request built when the caller passes no headers.\<close>

lemma api_request_plain:
  assumes "i_headers ini = None"
    and "header_value (normalize_value key)" "header_value (normalize_value (newReqId w))"
  shows "api_request input ini key w
           = Inr \<lparr>url = input, meth = i_method ini,
                  hdrs = [(''x-api-key'', normalize_value key),
                          (''x-request-id'', normalize_value (newReqId w))],
                  body = i_body ini\<rparr>"
proof -
  have h0: "caller_headers ini = Some []"
    using assms(1) by (simp add: caller_headers_def Headers_def)
  have n: "\<not> has [] ''X-API-Key''"
    by (simp add: has_def)
  have n': "\<not> has [(''x-api-key'', normalize_value key)] REQ_ID"
    using header_names(3) by (simp add: has_def header_names(4))
  show ?thesis
    using assms(2,3) n'
    by (simp add: api_request_def h0 n headers_set_fresh [OF n header_names(1)]
          headers_set_fresh [OF n' header_names(2)] header_names(4,5))
qed

lemma api_sent_headers:
  assumes "q \<in> set (sent_between w (snd (api input ini w)))"
  shows "\<exists>h0 key. caller_headers ini = Some h0
           \<and> fst (Auth_ensure w) = Inr key \<and> key \<noteq> []
           \<and> (storage w = Some key
               \<or> ((storage w = None \<or> storage w = Some [])
                  \<and> fst (prompt ''Enter API key'' w) = Some key))
           \<and> headers_get (hdrs q) ''X-API-Key''
               = (if has h0 ''X-API-Key'' then headers_get h0 ''X-API-Key''
                  else Some (normalize_value key))
           \<and> headers_get (hdrs q) ''X-Request-Id''
               = (if has h0 ''X-Request-Id'' then headers_get h0 ''X-Request-Id''
                  else Some (normalize_value (newReqId w)))
           \<and> (\<forall>n. lower n \<noteq> ''x-api-key'' \<and> lower n \<noteq> ''x-request-id''
                  \<longrightarrow> headers_get (hdrs q) n = headers_get h0 n)
           \<and> url q = input \<and> meth q = i_method ini \<and> body q = i_body ini"
proof -
  from assms api_sent_request [of w input ini]
  obtain key w1 where e: "Auth_ensure w = (Inr key, w1)"
    and r: "api_request input ini key w1 = Inr q"
    by auto
  from e have w1: "newReqId w1 = newReqId w"
    using Auth_ensure_newReqId [of w] by simp
  from api_request_headers [OF r] obtain h0 where
    "caller_headers ini = Some h0"
    "headers_get (hdrs q) ''X-API-Key''
       = (if has h0 ''X-API-Key'' then headers_get h0 ''X-API-Key''
          else Some (normalize_value key))"
    "headers_get (hdrs q) ''X-Request-Id''
       = (if has h0 ''X-Request-Id'' then headers_get h0 ''X-Request-Id''
          else Some (normalize_value (newReqId w)))"
    "\<forall>n. lower n \<noteq> ''x-api-key'' \<and> lower n \<noteq> ''x-request-id''
         \<longrightarrow> headers_get (hdrs q) n = headers_get h0 n"
    unfolding w1 by blast
  with Auth_ensure_key(1,2) [OF e] api_request_fields [OF r] e show ?thesis
    by (intro exI [of _ h0] exI [of _ key]) simp
qed

text \<open>
  C7: every request issued through \<open>api\<close> carries an \<open>X-API-Key\<close> and an \<open>X-Request-Id\<close>
  header. The key header holds the caller's value when the caller supplied one, else the
  key that \<open>ensure\<close> returned (the stored key, or with none stored the non-empty key typed
  at the prompt), as \<open>Headers\<close> normalises it; the request id header holds the caller's
  value when the caller supplied one, else the identifier \<open>newReqId\<close> drew. Every other
  header, the url, the method and the body are the caller's. At most one request is
  issued; with no caller headers, and a key and identifier that are valid header values,
  it is the request with exactly these two headers.
\<close>

theorem C7_api_headers:
  "(\<forall>q \<in> set (sent_between w (snd (api input ini w))).
      headers_get (hdrs q) ''X-API-Key'' \<noteq> None
      \<and> headers_get (hdrs q) ''X-Request-Id'' \<noteq> None
      \<and> (\<exists>h0 key.
            caller_headers ini = Some h0
            \<and> fst (Auth_ensure w) = Inr key \<and> key \<noteq> []
            \<and> (storage w = Some key
                \<or> ((storage w = None \<or> storage w = Some [])
                   \<and> fst (prompt ''Enter API key'' w) = Some key))
            \<and> headers_get (hdrs q) ''X-API-Key''
                = (if has h0 ''X-API-Key'' then headers_get h0 ''X-API-Key''
                   else Some (normalize_value key))
            \<and> headers_get (hdrs q) ''X-Request-Id''
                = (if has h0 ''X-Request-Id'' then headers_get h0 ''X-Request-Id''
                   else Some (normalize_value (newReqId w)))
            \<and> (\<forall>n. lower n \<noteq> ''x-api-key'' \<and> lower n \<noteq> ''x-request-id''
                   \<longrightarrow> headers_get (hdrs q) n = headers_get h0 n))
      \<and> url q = input \<and> meth q = i_method ini \<and> body q = i_body ini)
   \<and> length (sent_between w (snd (api input ini w))) \<le> 1
   \<and> (\<forall>key. fst (Auth_ensure w) = Inr key \<and> i_headers ini = None
         \<and> header_value (normalize_value key) \<and> header_value (normalize_value (newReqId w))
         \<longrightarrow> sent_between w (snd (api input ini w))
               = [\<lparr>url = input, meth = i_method ini,
                   hdrs = [(''x-api-key'', normalize_value key),
                           (''x-request-id'', normalize_value (newReqId w))],
                   body = i_body ini\<rparr>])"
proof (intro conjI ballI allI impI)
  fix q
  assume q: "q \<in> set (sent_between w (snd (api input ini w)))"
  from api_sent_headers [OF q] obtain h0 key where
    h0: "caller_headers ini = Some h0"
    and key: "fst (Auth_ensure w) = Inr key" "key \<noteq> []"
      "storage w = Some key
       \<or> ((storage w = None \<or> storage w = Some [])
          \<and> fst (prompt ''Enter API key'' w) = Some key)"
    and k: "headers_get (hdrs q) ''X-API-Key''
              = (if has h0 ''X-API-Key'' then headers_get h0 ''X-API-Key''
                 else Some (normalize_value key))"
    and r: "headers_get (hdrs q) ''X-Request-Id''
              = (if has h0 ''X-Request-Id'' then headers_get h0 ''X-Request-Id''
                 else Some (normalize_value (newReqId w)))"
    and o: "\<forall>n. lower n \<noteq> ''x-api-key'' \<and> lower n \<noteq> ''x-request-id''
               \<longrightarrow> headers_get (hdrs q) n = headers_get h0 n"
    and f: "url q = input" "meth q = i_method ini" "body q = i_body ini"
    by blast
  from k show "headers_get (hdrs q) ''X-API-Key'' \<noteq> None"
    using headers_get_present [of h0 "''X-API-Key''"] by (auto split: if_splits)
  from r show "headers_get (hdrs q) ''X-Request-Id'' \<noteq> None"
    using headers_get_present [of h0 "''X-Request-Id''"] by (auto split: if_splits)
  from h0 key k r o
  show "\<exists>h0 key.
            caller_headers ini = Some h0
            \<and> fst (Auth_ensure w) = Inr key \<and> key \<noteq> []
            \<and> (storage w = Some key
                \<or> ((storage w = None \<or> storage w = Some [])
                   \<and> fst (prompt ''Enter API key'' w) = Some key))
            \<and> headers_get (hdrs q) ''X-API-Key''
                = (if has h0 ''X-API-Key'' then headers_get h0 ''X-API-Key''
                   else Some (normalize_value key))
            \<and> headers_get (hdrs q) ''X-Request-Id''
                = (if has h0 ''X-Request-Id'' then headers_get h0 ''X-Request-Id''
                   else Some (normalize_value (newReqId w)))
            \<and> (\<forall>n. lower n \<noteq> ''x-api-key'' \<and> lower n \<noteq> ''x-request-id''
                   \<longrightarrow> headers_get (hdrs q) n = headers_get h0 n)"
    by blast
  from f show "url q = input" "meth q = i_method ini" "body q = i_body ini"
    by simp_all
next
  show "length (sent_between w (snd (api input ini w))) \<le> 1"
    using api_sent_request [of w input ini] by auto
next
  fix key
  assume a: "fst (Auth_ensure w) = Inr key \<and> i_headers ini = None
         \<and> header_value (normalize_value key) \<and> header_value (normalize_value (newReqId w))"
  obtain w1 where e: "Auth_ensure w = (Inr key, w1)"
    using a by (cases "Auth_ensure w") simp
  then have w1: "newReqId w1 = newReqId w" "fetched w1 = fetched w"
    using Auth_ensure_newReqId [of w] Auth_ensure_fields(1) [of w] by simp_all
  from a have "api_request input ini key w1
           = Inr \<lparr>url = input, meth = i_method ini,
                  hdrs = [(''x-api-key'', normalize_value key),
                          (''x-request-id'', normalize_value (newReqId w))],
                  body = i_body ini\<rparr>"
    using api_request_plain [of ini key w1 input] by (simp add: w1)
  with e w1 show "sent_between w (snd (api input ini w))
               = [\<lparr>url = input, meth = i_method ini,
                   hdrs = [(''x-api-key'', normalize_value key),
                           (''x-request-id'', normalize_value (newReqId w))],
                   body = i_body ini\<rparr>]"
    by (simp add: api_def sent_between_def)
qed

theorem C7_api_headers_witness:
  "storage keyed_page = Some ''stored-key'' \<and> i_headers plain_init = None
   \<and> sent_between keyed_page (snd (api ''/allocations'' plain_init keyed_page))
       = [\<lparr>url = ''/allocations'', meth = None,
           hdrs = [(''x-api-key'', ''stored-key''), (''x-request-id'', ''req-0'')],
           body = None\<rparr>]
   \<and> headers_get [(''x-api-key'', ''stored-key''), (''x-request-id'', ''req-0'')] ''X-API-Key''
       = Some ''stored-key''
   \<and> headers_get [(''x-api-key'', ''stored-key''), (''x-request-id'', ''req-0'')] ''X-Request-Id''
       = Some ''req-0''
   \<and> caller_headers own_key = Some [(''x-api-key'', ''mine'')]
   \<and> sent_between keyed_page (snd (api ''/allocations'' own_key keyed_page))
       = [\<lparr>url = ''/allocations'', meth = None,
           hdrs = [(''x-api-key'', ''mine''), (''x-request-id'', ''req-0'')], body = None\<rparr>]
   \<and> headers_get [(''x-api-key'', ''mine''), (''x-request-id'', ''req-0'')] ''X-API-Key''
       = Some ''mine''"
proof -
  let ?q = "\<lparr>url = ''/allocations'', meth = None,
         hdrs = [(''x-api-key'', ''stored-key''), (''x-request-id'', ''req-0'')], body = None\<rparr>"
  let ?own = "\<lparr>url = ''/allocations'', meth = None,
         hdrs = [(''x-api-key'', ''mine''), (''x-request-id'', ''req-0'')], body = None\<rparr>"
  have page: "storage keyed_page = Some ''stored-key''" "i_headers plain_init = None"
    "fst (Auth_ensure keyed_page) = Inr ''stored-key''"
    "normalize_value ''stored-key'' = ''stored-key''"
    "header_value ''stored-key''"
    "normalize_value (newReqId keyed_page) = ''req-0''"
    "header_value ''req-0''"
    "url ?q = ''/allocations''"
    by code_simp+
  have own: "caller_headers own_key = Some [(''x-api-key'', ''mine'')]"
    "has [(''x-api-key'', ''mine'')] ''X-API-Key''"
    "\<not> has [(''x-api-key'', ''mine'')] ''X-Request-Id''"
    "headers_get [(''x-api-key'', ''mine'')] ''X-API-Key'' = Some ''mine''"
    by code_simp+
  have s: "sent_between keyed_page (snd (api ''/allocations'' own_key keyed_page)) = [?own]"
    by code_simp
  note plain = C7_api_headers [of keyed_page "''/allocations''" plain_init]
  from plain have "fst (Auth_ensure keyed_page) = Inr ''stored-key'' \<and> i_headers plain_init = None
         \<and> header_value (normalize_value ''stored-key'')
         \<and> header_value (normalize_value (newReqId keyed_page))
         \<longrightarrow> sent_between keyed_page (snd (api ''/allocations'' plain_init keyed_page))
               = [\<lparr>url = ''/allocations'', meth = i_method plain_init,
                   hdrs = [(''x-api-key'', normalize_value ''stored-key''),
                           (''x-request-id'', normalize_value (newReqId keyed_page))],
                   body = i_body plain_init\<rparr>]"
    by blast
  with page have 1: "sent_between keyed_page (snd (api ''/allocations'' plain_init keyed_page)) = [?q]"
    by (simp add: plain_init_def)
  from plain have "\<forall>q \<in> set (sent_between keyed_page (snd (api ''/allocations'' plain_init keyed_page))).
      \<exists>h0 key. caller_headers plain_init = Some h0 \<and> fst (Auth_ensure keyed_page) = Inr key
        \<and> headers_get (hdrs q) ''X-API-Key''
            = (if has h0 ''X-API-Key'' then headers_get h0 ''X-API-Key''
               else Some (normalize_value key))
        \<and> headers_get (hdrs q) ''X-Request-Id''
            = (if has h0 ''X-Request-Id'' then headers_get h0 ''X-Request-Id''
               else Some (normalize_value (newReqId keyed_page)))"
    by blast
  then obtain h0 key where g: "caller_headers plain_init = Some h0"
      "fst (Auth_ensure keyed_page) = Inr key"
      "headers_get (hdrs ?q) ''X-API-Key''
         = (if has h0 ''X-API-Key'' then headers_get h0 ''X-API-Key''
            else Some (normalize_value key))"
      "headers_get (hdrs ?q) ''X-Request-Id''
         = (if has h0 ''X-Request-Id'' then headers_get h0 ''X-Request-Id''
            else Some (normalize_value (newReqId keyed_page)))"
    unfolding 1 by auto
  have "caller_headers plain_init = Some []"
    by code_simp
  with g(1) have "h0 = []" by simp
  moreover from g(2) page(3) have "key = ''stored-key''" by simp
  ultimately have 2: "headers_get (hdrs ?q) ''X-API-Key'' = Some ''stored-key''"
    "headers_get (hdrs ?q) ''X-Request-Id'' = Some ''req-0''"
    using g(3,4) page(4,6) by (simp_all add: has_def)
  from C7_api_headers [of keyed_page "''/allocations''" own_key]
  have "\<forall>q \<in> set (sent_between keyed_page (snd (api ''/allocations'' own_key keyed_page))).
      \<exists>h0 key. caller_headers own_key = Some h0
        \<and> headers_get (hdrs q) ''X-API-Key''
            = (if has h0 ''X-API-Key'' then headers_get h0 ''X-API-Key''
               else Some (normalize_value key))"
    by blast
  then obtain h0' key' where "caller_headers own_key = Some h0'"
      "headers_get (hdrs ?own) ''X-API-Key''
         = (if has h0' ''X-API-Key'' then headers_get h0' ''X-API-Key''
            else Some (normalize_value key'))"
    unfolding s by auto
  with own have 3: "headers_get (hdrs ?own) ''X-API-Key'' = Some ''mine''"
    by simp
  from page(1,2) 1 2 own(1) s 3 show ?thesis by simp
qed

subsection \<open>auth.js: the key\<close>




lemma fetch_keeps [simp]:
  "storage (snd (fetch r w)) = storage w"
  "prompt_log (snd (fetch r w)) = prompt_log w"
  "answers (snd (fetch r w)) = answers w"
  by (simp_all add: fetch_def Let_def)






end
